theory Spec2Isabelle
  imports Complex_Main "HOL-Library.AList"
begin

section \<open>Python values used by the notebook\<close>

text \<open>
  The notebook \<^verbatim>\<open>eye-color-and-23andme-data.ipynb\<close> is a sequence of code cells run top
  to bottom. Each cell is embedded as a function of the values it reads; an exception
  raised by a cell is the left summand of its result.

  A Python \<^verbatim>\<open>str\<close> is a \<^typ>\<open>string\<close>. The texts of the JSON documents (cells 7 and 8) are
  strings whose characters are the code points below 256. The text of the personal file
  (cell 3) is read as \<^verbatim>\<open>bytes\<close> and decoded: a \<^verbatim>\<open>bytes\<close> value is a \<^typ>\<open>string\<close> of
  its bytes, and the decoded \<^verbatim>\<open>str\<close> is represented by its UTF-8 encoding, the same bytes.
  A Python \<^verbatim>\<open>dict\<close> is an association list with distinct keys in insertion order:
  assigning to a key that is present replaces its value in place, assigning to a new key
  appends it, which is \<^const>\<open>AList.update\<close>.
\<close>

datatype error =
  KeyError | IndexError | NameError | ZeroDivisionError | OverflowError | UnicodeDecodeError |
  RequestError

type_synonym ('k, 'v) dict = "('k \<times> 'v) list"

definition getitem :: "('k, 'v) dict \<Rightarrow> 'k \<Rightarrow> error + 'v" where
  "getitem d k = (case map_of d k of None \<Rightarrow> Inl KeyError | Some v \<Rightarrow> Inr v)"

definition contains :: "('k, 'v) dict \<Rightarrow> 'k \<Rightarrow> bool" where
  "contains d k = (k \<in> set (map fst d))"

text \<open>\<^verbatim>\<open>{key(item): value(item) for item in items if cond(item)}\<close>\<close>

definition dict_comprehension ::
  "('a \<Rightarrow> 'k) \<Rightarrow> ('a \<Rightarrow> 'v) \<Rightarrow> ('a \<Rightarrow> bool) \<Rightarrow> 'a list \<Rightarrow> ('k, 'v) dict" where
  "dict_comprehension key val cond items =
     foldl (\<lambda>d item. if cond item then AList.update (key item) (val item) d else d) [] items"

subsection \<open>String methods\<close>

definition startswith :: "string \<Rightarrow> string \<Rightarrow> bool" where
  "startswith s p = (take (length p) s = p)"

text \<open>\<^verbatim>\<open>s.split(sep)\<close> for a separator of one character: never an empty list.\<close>

fun split :: "char \<Rightarrow> string \<Rightarrow> string list" where
  "split sep [] = [[]]"
| "split sep (c # cs) =
     (if c = sep then [] # split sep cs
      else (case split sep cs of [] \<Rightarrow> [[c]] | w # ws \<Rightarrow> (c # w) # ws))"

text \<open>\<^verbatim>\<open>str.lower\<close> on one character, for the code points below 256: the ASCII capitals
  and the Latin-1 capitals (0xC0 to 0xDE, without the multiplication sign 0xD7).\<close>

definition lower_char :: "char \<Rightarrow> char" where
  "lower_char c =
     (let n = (of_char c :: nat) in
      if (65 \<le> n \<and> n \<le> 90) \<or> (192 \<le> n \<and> n \<le> 222 \<and> n \<noteq> 215)
      then char_of (n + 32) else c)"

definition lower :: "string \<Rightarrow> string" where
  "lower s = map lower_char s"

text \<open>\<^verbatim>\<open>'{}'.format(x)\<close> for \<^verbatim>\<open>x\<close> a \<^verbatim>\<open>str\<close> or \<^verbatim>\<open>None\<close>.\<close>

fun format_opt :: "string option \<Rightarrow> string" where
  "format_opt None = ''None''"
| "format_opt (Some s) = s"

subsection \<open>Bytes and decoded text\<close>

text \<open>
  \<^verbatim>\<open>bytes.decode('utf-8')\<close> accepts the well-formed UTF-8 byte sequences (no overlong form,
  no surrogate, nothing above U+10FFFF) and raises \<^verbatim>\<open>UnicodeDecodeError\<close> on any other.
  \<open>utf8_head\<close> is the length of the well-formed sequence of one character that the bytes
  start with, or 0.
\<close>

definition byte_in :: "char \<Rightarrow> nat \<Rightarrow> nat \<Rightarrow> bool" where
  "byte_in c lo hi = (lo \<le> of_char c \<and> (of_char c :: nat) \<le> hi)"

definition utf8_head :: "string \<Rightarrow> nat" where
  "utf8_head s =
     (case s of
        [] \<Rightarrow> 0
      | b # r \<Rightarrow>
          if byte_in b 0x00 0x7F then 1
          else if byte_in b 0xC2 0xDF then
            (case r of
               c1 # _ \<Rightarrow> if byte_in c1 0x80 0xBF then 2 else 0
             | _ \<Rightarrow> 0)
          else if byte_in b 0xE0 0xEF then
            (case r of
               c1 # c2 # _ \<Rightarrow>
                 if byte_in c1 (if b = CHR 0xE0 then 0xA0 else 0x80)
                      (if b = CHR 0xED then 0x9F else 0xBF) \<and>
                    byte_in c2 0x80 0xBF
                 then 3 else 0
             | _ \<Rightarrow> 0)
          else if byte_in b 0xF0 0xF4 then
            (case r of
               c1 # c2 # c3 # _ \<Rightarrow>
                 if byte_in c1 (if b = CHR 0xF0 then 0x90 else 0x80)
                      (if b = CHR 0xF4 then 0x8F else 0xBF) \<and>
                    byte_in c2 0x80 0xBF \<and> byte_in c3 0x80 0xBF
                 then 4 else 0
             | _ \<Rightarrow> 0)
          else 0)"

function valid_utf8 :: "string \<Rightarrow> bool" where
  "valid_utf8 s =
     (if s = [] then True
      else case utf8_head s of 0 \<Rightarrow> False | Suc k \<Rightarrow> valid_utf8 (drop (Suc k) s))"
  by pat_completeness auto
termination
  by (relation "measure length") auto

declare valid_utf8.simps [simp del]

definition decode :: "string \<Rightarrow> error + string" where
  "decode raw = (if valid_utf8 raw then Inr raw else Inl UnicodeDecodeError)"

text \<open>
  \<^verbatim>\<open>str.strip()\<close> removes the whitespace characters (those of \<^verbatim>\<open>str.isspace\<close>) at both
  ends. \<open>whitespace\<close> lists their UTF-8 encodings: U+0009 to U+000D, U+001C to U+0020,
  U+0085, U+00A0, U+1680, U+2000 to U+200A, U+2028, U+2029, U+202F, U+205F and U+3000. In
  well-formed UTF-8 an encoding at the start or at the end of the bytes is a whole character.
  \<^verbatim>\<open>startswith\<close>, \<^verbatim>\<open>split\<close> and the comparison with an ASCII text act on the bytes as
  they do on the characters.
\<close>

definition whitespace :: "string list" where
  "whitespace =
     [[CHR 0x09], [CHR 0x0A], [CHR 0x0B], [CHR 0x0C], [CHR 0x0D],
      [CHR 0x1C], [CHR 0x1D], [CHR 0x1E], [CHR 0x1F], [CHR 0x20],
      [CHR 0xC2, CHR 0x85], [CHR 0xC2, CHR 0xA0],
      [CHR 0xE1, CHR 0x9A, CHR 0x80],
      [CHR 0xE2, CHR 0x80, CHR 0x80], [CHR 0xE2, CHR 0x80, CHR 0x81],
      [CHR 0xE2, CHR 0x80, CHR 0x82], [CHR 0xE2, CHR 0x80, CHR 0x83],
      [CHR 0xE2, CHR 0x80, CHR 0x84], [CHR 0xE2, CHR 0x80, CHR 0x85],
      [CHR 0xE2, CHR 0x80, CHR 0x86], [CHR 0xE2, CHR 0x80, CHR 0x87],
      [CHR 0xE2, CHR 0x80, CHR 0x88], [CHR 0xE2, CHR 0x80, CHR 0x89],
      [CHR 0xE2, CHR 0x80, CHR 0x8A],
      [CHR 0xE2, CHR 0x80, CHR 0xA8], [CHR 0xE2, CHR 0x80, CHR 0xA9],
      [CHR 0xE2, CHR 0x80, CHR 0xAF], [CHR 0xE2, CHR 0x81, CHR 0x9F],
      [CHR 0xE3, CHR 0x80, CHR 0x80]]"

definition match_prefix :: "string list \<Rightarrow> string \<Rightarrow> nat" where
  "match_prefix ws s =
     (case find (\<lambda>w. take (length w) s = w) ws of None \<Rightarrow> 0 | Some w \<Rightarrow> length w)"

function strip_prefixes :: "string list \<Rightarrow> string \<Rightarrow> string" where
  "strip_prefixes ws s =
     (if s = [] then []
      else case match_prefix ws s of 0 \<Rightarrow> s | Suc k \<Rightarrow> strip_prefixes ws (drop (Suc k) s))"
  by pat_completeness auto
termination
  by (relation "measure (\<lambda>(ws, s). length s)") auto

declare strip_prefixes.simps [simp del]

definition lstrip :: "string \<Rightarrow> string" where
  "lstrip s = strip_prefixes whitespace s"

definition rstrip :: "string \<Rightarrow> string" where
  "rstrip s = rev (strip_prefixes (map rev whitespace) (rev s))"

definition strip :: "string \<Rightarrow> string" where
  "strip s = rstrip (lstrip s)"

section \<open>Cell 3: the genotype extractor\<close>

text \<open>
  \<^verbatim>\<open>
  snps = {'rs12913832': None, 'rs16891982': None, 'rs12203592': None}
  file_23andme.seek(0)
  for line in file_23andme:
      line = line.decode('utf-8').strip()
      if line.startswith('#'):
          continue
      line_data = line.split('\t')
      if line_data[0] in snps.keys():
          snps[line_data[0]] = line_data[3]
  your_genotype = ('{}'.format(snps['rs12203592']), '{}'.format(snps['rs12913832']),
                   '{}'.format(snps['rs16891982']))
  \<close>
  The file is opened in binary mode: it is the list of its lines, each a \<^verbatim>\<open>bytes\<close> value.
\<close>

type_synonym snps = "(string, string option) dict"

definition snps_init :: snps where
  "snps_init = [(''rs12913832'', None), (''rs16891982'', None), (''rs12203592'', None)]"

text \<open>One iteration of the loop body.\<close>

definition scan_line :: "snps \<Rightarrow> string \<Rightarrow> error + snps" where
  "scan_line snps raw =
     (case decode raw of
        Inl e \<Rightarrow> Inl e
      | Inr text \<Rightarrow>
          (let line = strip text in
           if startswith line ''#'' then Inr snps
           else
             (let line_data = split (CHR 0x09) line in
              case line_data of
                [] \<Rightarrow> Inl IndexError
              | k # _ \<Rightarrow>
                  if contains snps k
                  then (if 3 < length line_data
                        then Inr (AList.update k (Some (line_data ! 3)) snps)
                        else Inl IndexError)
                  else Inr snps)))"

fun scan_lines :: "snps \<Rightarrow> string list \<Rightarrow> error + snps" where
  "scan_lines snps [] = Inr snps"
| "scan_lines snps (raw # rest) =
     (case scan_line snps raw of Inl e \<Rightarrow> Inl e | Inr snps' \<Rightarrow> scan_lines snps' rest)"

text \<open>
  \<^verbatim>\<open>
  for snp in snps.keys():
      print('{}:\t{}'.format(snp, snps[snp] if snps[snp] else 'Unknown'))
  \<close>
  \<^verbatim>\<open>None\<close> and the empty string are the falsy values of \<^verbatim>\<open>snps\<close>.
\<close>

definition print_snp :: "string \<Rightarrow> string option \<Rightarrow> string" where
  "print_snp snp v =
     snp @ '':'' @ [CHR 0x09] @
       (case v of None \<Rightarrow> ''Unknown'' | Some g \<Rightarrow> if g = [] then ''Unknown'' else g)"

definition print_snps :: "snps \<Rightarrow> string list" where
  "print_snps snps = map (\<lambda>(snp, v). print_snp snp v) snps"

type_synonym genotype_tuple = "string \<times> string \<times> string"

definition genotype_of_snps :: "snps \<Rightarrow> error + genotype_tuple" where
  "genotype_of_snps snps =
     (case getitem snps ''rs12203592'' of Inl e \<Rightarrow> Inl e | Inr a \<Rightarrow>
      case getitem snps ''rs12913832'' of Inl e \<Rightarrow> Inl e | Inr b \<Rightarrow>
      case getitem snps ''rs16891982'' of Inl e \<Rightarrow> Inl e | Inr c \<Rightarrow>
        Inr (format_opt a, format_opt b, format_opt c))"

definition your_genotype :: "string list \<Rightarrow> error + genotype_tuple" where
  "your_genotype file =
     (case scan_lines snps_init file of Inl e \<Rightarrow> Inl e | Inr snps \<Rightarrow> genotype_of_snps snps)"

section \<open>Cell 1: locating the personal data file\<close>

text \<open>
  \<^verbatim>\<open>
  print("Checking for 23andMe data in Open Humans...\n")
  user = api.exchange_oauth2_member(os.environ.get('OH_ACCESS_TOKEN'))
  for entry in user['data']:
      if entry['source'] == "direct-sharing-128" and 'vcf' not in entry['metadata']['tags']:
          file_url_23andme = entry['download_url']
          break
  if 'file_url_23andme' not in locals():
      print("Sorry, you first need to add 23andMe data to Open Humans!\n"
            "You can do that here: https://www.openhumans.org/activity/23andme-upload/")
  else:
      print("Great, you have 23andMe data in Open Humans! We'll retrieve this...\n")
  file_23andme = tempfile.NamedTemporaryFile()
  file_23andme.write(requests.get(file_url_23andme).content)
  file_23andme.flush()
  print("Done!")
  \<close>
  The cell runs in a fresh namespace, so \<^verbatim>\<open>file_url_23andme\<close> is bound exactly when the
  loop found an entry: the variable is a \<^typ>\<open>string option\<close>. \<^verbatim>\<open>requests.get\<close> is a
  parameter. The result is the text printed so far, and the file content or the exception.
\<close>

record metadata =
  tags :: "string list"

record entry =
  source :: string
  metadata :: metadata
  download_url :: string

fun find_file_url :: "entry list \<Rightarrow> string option" where
  "find_file_url [] = None"
| "find_file_url (e # es) =
     (if source e = ''direct-sharing-128'' \<and> ''vcf'' \<notin> set (tags (metadata e))
      then Some (download_url e) else find_file_url es)"

definition msg_checking :: string where
  "msg_checking = ''Checking for 23andMe data in Open Humans...'' @ [CHR 0x0A]"

definition msg_sorry :: string where
  "msg_sorry = ''Sorry, you first need to add 23andMe data to Open Humans!'' @ [CHR 0x0A] @
     ''You can do that here: https://www.openhumans.org/activity/23andme-upload/''"

definition msg_great :: string where
  "msg_great = ''Great, you have 23andMe data in Open Humans! We'' @ [CHR 0x27] @
     ''ll retrieve this...'' @ [CHR 0x0A]"

definition cell1 :: "(string \<Rightarrow> error + 'c) \<Rightarrow> entry list \<Rightarrow> string list \<times> (error + 'c)" where
  "cell1 requests_get data =
     (let file_url_23andme = find_file_url data;
          printed = [msg_checking,
                     if file_url_23andme = None then msg_sorry else msg_great]
      in case file_url_23andme of
           None \<Rightarrow> (printed, Inl NameError)
         | Some url \<Rightarrow>
             (case requests_get url of
                Inl e \<Rightarrow> (printed, Inl e)
              | Inr content \<Rightarrow> (printed @ [''Done!''], Inr content)))"

section \<open>Cell 7: the genotype index builder\<close>

text \<open>
  \<^verbatim>\<open>
  eyecolor_by_uid = {item['user_id']: item['variation'].lower()
                     for item in opensnp_eyecolors['users']}
  rs12203592_by_uid = {item['user']['id']: item['user']['genotypes'][0]['local_genotype']
                       for item in opensnp_rs12203592 if item['user']['genotypes']}
  (the same for rs12913832 and rs16891982)
  joint_uids = [uid for uid in eyecolor_by_uid.keys() if uid in rs12203592_by_uid and
                uid in rs12913832_by_uid and uid in rs16891982_by_uid]
  genotypes_to_color = {}
  for uid in joint_uids:
      genotype = ('{}'.format(rs12203592_by_uid[uid]), '{}'.format(rs12913832_by_uid[uid]),
                  '{}'.format(rs16891982_by_uid[uid]))
      if genotype in genotypes_to_color:
          genotypes_to_color[genotype].append(eyecolor_by_uid[uid])
      else:
          genotypes_to_color[genotype] = [eyecolor_by_uid[uid]]
  \<close>
  The JSON documents are typed: a subject identifier is of any type \<open>'u\<close>, a colour label and
  a genotype observation are strings (on which \<^verbatim>\<open>'{}'.format\<close> is the identity).
\<close>

record 'u eyecolor_item =
  user_id :: 'u
  variation :: string

record 'u eyecolors =
  users :: "'u eyecolor_item list"

record genotype_obs =
  local_genotype :: string

record 'u snp_user =
  ident :: 'u
  genotypes :: "genotype_obs list"

record 'u snp_item =
  user :: "'u snp_user"

type_synonym genotype_index = "(genotype_tuple, string list) dict"

definition eyecolor_by_uid :: "'u eyecolors \<Rightarrow> ('u, string) dict" where
  "eyecolor_by_uid opensnp_eyecolors =
     dict_comprehension user_id (\<lambda>item. lower (variation item)) (\<lambda>item. True)
       (users opensnp_eyecolors)"

definition rs_by_uid :: "'u snp_item list \<Rightarrow> ('u, string) dict" where
  "rs_by_uid opensnp_rs =
     dict_comprehension (\<lambda>item. ident (user item))
       (\<lambda>item. local_genotype (hd (genotypes (user item))))
       (\<lambda>item. genotypes (user item) \<noteq> []) opensnp_rs"

definition joint_uids ::
  "('u, string) dict \<Rightarrow> ('u, string) dict \<Rightarrow> ('u, string) dict \<Rightarrow> ('u, string) dict \<Rightarrow> 'u list" where
  "joint_uids eye rs12203592 rs12913832 rs16891982 =
     filter (\<lambda>uid. contains rs12203592 uid \<and> contains rs12913832 uid \<and> contains rs16891982 uid)
       (map fst eye)"

definition bind_err :: "error + 'a \<Rightarrow> ('a \<Rightarrow> error + 'b) \<Rightarrow> error + 'b" where
  "bind_err m f = (case m of Inl e \<Rightarrow> Inl e | Inr x \<Rightarrow> f x)"

text \<open>One iteration of the loop over \<^verbatim>\<open>joint_uids\<close>.\<close>

definition index_step ::
  "('u, string) dict \<Rightarrow> ('u, string) dict \<Rightarrow> ('u, string) dict \<Rightarrow> ('u, string) dict \<Rightarrow>
   genotype_index \<Rightarrow> 'u \<Rightarrow> error + genotype_index" where
  "index_step eye rs12203592 rs12913832 rs16891982 genotypes_to_color uid =
     bind_err (getitem rs12203592 uid) (\<lambda>a.
     bind_err (getitem rs12913832 uid) (\<lambda>b.
     bind_err (getitem rs16891982 uid) (\<lambda>c.
       let genotype = (a, b, c) in
       case map_of genotypes_to_color genotype of
         Some colors \<Rightarrow>
           bind_err (getitem eye uid) (\<lambda>color.
             Inr (AList.update genotype (colors @ [color]) genotypes_to_color))
       | None \<Rightarrow>
           bind_err (getitem eye uid) (\<lambda>color.
             Inr (AList.update genotype [color] genotypes_to_color)))))"

fun index_loop ::
  "('u, string) dict \<Rightarrow> ('u, string) dict \<Rightarrow> ('u, string) dict \<Rightarrow> ('u, string) dict \<Rightarrow>
   genotype_index \<Rightarrow> 'u list \<Rightarrow> error + genotype_index" where
  "index_loop eye ra rb rc idx [] = Inr idx"
| "index_loop eye ra rb rc idx (uid # uids) =
     bind_err (index_step eye ra rb rc idx uid) (\<lambda>idx'. index_loop eye ra rb rc idx' uids)"

definition genotypes_to_color ::
  "'u eyecolors \<Rightarrow> 'u snp_item list \<Rightarrow> 'u snp_item list \<Rightarrow> 'u snp_item list \<Rightarrow>
   error + genotype_index" where
  "genotypes_to_color opensnp_eyecolors opensnp_rs12203592 opensnp_rs12913832 opensnp_rs16891982 =
     (let eye = eyecolor_by_uid opensnp_eyecolors;
          ra = rs_by_uid opensnp_rs12203592;
          rb = rs_by_uid opensnp_rs12913832;
          rc = rs_by_uid opensnp_rs16891982
      in index_loop eye ra rb rc [] (joint_uids eye ra rb rc))"

section \<open>Cell 8: the distribution reporter\<close>

text \<open>
  \<^verbatim>\<open>
  color_counts = {}
  for color in genotypes_to_color[your_genotype]:
      if color in color_counts:
          color_counts[color] += 1
      else:
          color_counts[color] = 1
  color_counts = sorted(list(color_counts.items()), key=lambda x: x[1], reverse=True)
  color_count_sum = sum([item[1] for item in color_counts])
  color_count_percentages = [(item[0], item[1]/color_count_sum) for item in color_counts]
  \<close>
  The cell's value is \<^verbatim>\<open>(color_count_sum, color_count_percentages)\<close>, which the cell then
  prints.
\<close>

definition tally_step :: "(string, int) dict \<Rightarrow> string \<Rightarrow> (string, int) dict" where
  "tally_step color_counts color =
     (case map_of color_counts color of
        Some n \<Rightarrow> AList.update color (n + 1) color_counts
      | None \<Rightarrow> AList.update color 1 color_counts)"

definition tally :: "string list \<Rightarrow> (string, int) dict" where
  "tally colors = foldl tally_step [] colors"

text \<open>\<^verbatim>\<open>sorted(xs, key=key, reverse=True)\<close>: the list is reversed, sorted by a stable
  ascending sort, and reversed again.\<close>

definition sorted_reverse :: "('a \<Rightarrow> int) \<Rightarrow> 'a list \<Rightarrow> 'a list" where
  "sorted_reverse key xs = rev (sort_key key (rev xs))"

definition color_counts :: "string list \<Rightarrow> (string \<times> int) list" where
  "color_counts colors = sorted_reverse snd (tally colors)"

definition color_count_sum :: "(string \<times> int) list \<Rightarrow> int" where
  "color_count_sum counts = sum_list (map snd counts)"

text \<open>
  \<^verbatim>\<open>a / b\<close> on two \<^verbatim>\<open>int\<close> is a \<^verbatim>\<open>float\<close>: the IEEE 754 double nearest to the quotient,
  ties to the even significand. A float is represented by its value, a \<^typ>\<open>rat\<close> (the sign
  of a zero is not kept). A double has a significand of 53 bits; the exponent of its last
  bit is at least -1074, and a rounded value of \<open>2\<^sup>1\<^sup>0\<^sup>2\<^sup>4\<close> or more is \<^verbatim>\<open>OverflowError\<close>.
  \<open>exponent a b\<close> is the \<open>e\<close> with \<open>2\<^sup>e \<le> a / b < 2\<^sup>e\<^sup>+\<^sup>1\<close>, for positive \<open>a\<close> and \<open>b\<close>.
\<close>

text \<open>\<open>tie_to_even f x\<close>, for \<open>f\<close> the floor of \<open>x\<close>, is the integer nearest to \<open>x\<close>, the even one
  of the two when \<open>x\<close> is half-way.\<close>

definition tie_to_even :: "int \<Rightarrow> rat \<Rightarrow> int" where
  "tie_to_even f x =
     (if x - of_int f < 1 / 2 then f
      else if 1 / 2 < x - of_int f then f + 1
      else if even f then f else f + 1)"

definition round_half_even :: "rat \<Rightarrow> int" where
  "round_half_even x = tie_to_even \<lfloor>x\<rfloor> x"

function exp_up :: "int \<Rightarrow> int \<Rightarrow> nat" where
  "exp_up a b = (if b \<le> 0 \<or> a < 2 * b then 0 else Suc (exp_up a (2 * b)))"
  by pat_completeness auto
termination
  by (relation "measure (\<lambda>(a, b). nat (a - b))") auto

function exp_down :: "int \<Rightarrow> int \<Rightarrow> nat" where
  "exp_down a b = (if a \<le> 0 \<or> b \<le> a then 0 else Suc (exp_down (2 * a) b))"
  by pat_completeness auto
termination
  by (relation "measure (\<lambda>(a, b). nat (b - a))") auto

declare exp_up.simps [simp del] exp_down.simps [simp del]

definition exponent :: "int \<Rightarrow> int \<Rightarrow> int" where
  "exponent a b = (if b \<le> a then int (exp_up a b) else - int (exp_down a b))"

definition pow2 :: "int \<Rightarrow> rat" where
  "pow2 p = (if 0 \<le> p then 2 ^ nat p else 1 / 2 ^ nat (- p))"

text \<open>The multiple of \<open>2\<^sup>p\<close> nearest to \<open>a / b\<close>.\<close>

definition round_at :: "int \<Rightarrow> int \<Rightarrow> int \<Rightarrow> rat" where
  "round_at p a b = of_int (round_half_even (of_int a / of_int b / pow2 p)) * pow2 p"

text \<open>\<open>round_double a b\<close> is the double nearest to \<open>a / b\<close>, for positive \<open>a\<close> and \<open>b\<close>: the
  last bit of the significand has the exponent \<open>e - 52\<close>, and -1074 in the subnormal range.\<close>

definition round_double :: "int \<Rightarrow> int \<Rightarrow> rat" where
  "round_double a b = round_at (max (exponent a b) (- 1022) - 52) a b"

text \<open>The float of a rounded magnitude and a sign, or \<^verbatim>\<open>OverflowError\<close>.\<close>

definition float_result :: "bool \<Rightarrow> rat \<Rightarrow> error + rat" where
  "float_result negative r =
     (if of_int (2 ^ 1024) \<le> r then Inl OverflowError
      else Inr (if negative then - r else r))"

definition true_divide :: "int \<Rightarrow> int \<Rightarrow> error + rat" where
  "true_divide a b =
     (if b = 0 then Inl ZeroDivisionError
      else if a = 0 then Inr 0
      else float_result ((a < 0) \<noteq> (b < 0)) (round_double \<bar>a\<bar> \<bar>b\<bar>))"

fun color_count_percentages :: "int \<Rightarrow> (string \<times> int) list \<Rightarrow> error + (string \<times> rat) list" where
  "color_count_percentages count_sum [] = Inr []"
| "color_count_percentages count_sum (item # items) =
     bind_err (true_divide (snd item) count_sum) (\<lambda>share.
     bind_err (color_count_percentages count_sum items) (\<lambda>rest.
       Inr ((fst item, share) # rest)))"

definition report :: "genotype_index \<Rightarrow> genotype_tuple \<Rightarrow> error + int \<times> (string \<times> rat) list" where
  "report index genotype =
     bind_err (getitem index genotype) (\<lambda>colors.
       let counts = color_counts colors;
           count_sum = color_count_sum counts
       in bind_err (color_count_percentages count_sum counts) (\<lambda>shares. Inr (count_sum, shares)))"

section \<open>Notions used to state the properties\<close>

abbreviation tab :: string where
  "tab \<equiv> [CHR 0x09]"

text \<open>The three target identifiers, in the order of the positions of \<^verbatim>\<open>your_genotype\<close>.\<close>

definition target_ids :: "string list" where
  "target_ids = [''rs12203592'', ''rs12913832'', ''rs16891982'']"

definition component :: "string \<Rightarrow> genotype_tuple \<Rightarrow> string" where
  "component k t =
     (case t of (a, b, c) \<Rightarrow>
        if k = ''rs12203592'' then a else if k = ''rs12913832'' then b else c)"

text \<open>The fields of a decoded line that the loop does not skip as a comment.\<close>

definition record_of :: "string \<Rightarrow> string list option" where
  "record_of raw =
     (let line = strip raw in
      if startswith line ''#'' then None else Some (split (CHR 0x09) line))"

text \<open>The records of a file whose first field is \<open>k\<close>, in file order.\<close>

definition occurrences :: "string \<Rightarrow> string list \<Rightarrow> string list list" where
  "occurrences k lns = filter (\<lambda>f. take 1 f = [k]) (List.map_filter record_of lns)"

text \<open>Every line is well-formed UTF-8 and every record of a target identifier has a fourth
  field (the genotype).\<close>

definition well_formed :: "string list \<Rightarrow> bool" where
  "well_formed lns =
     (list_all valid_utf8 lns \<and>
      list_all (\<lambda>k. list_all (\<lambda>f. 3 < length f) (occurrences k lns)) target_ids)"

definition last_genotype :: "string \<Rightarrow> string list \<Rightarrow> string option" where
  "last_genotype k lns =
     (case rev (occurrences k lns) of [] \<Rightarrow> None | f # _ \<Rightarrow> Some (f ! 3))"

text \<open>The distinct elements of a list, in the order of their first occurrence.\<close>

fun first_seen :: "'a list \<Rightarrow> 'a list" where
  "first_seen [] = []"
| "first_seen (x # xs) = x # removeAll x (first_seen xs)"

text \<open>What the source datasets say about a subject: a colour label reported for it (lower-cased),
  and the first observation of a record of it with a non-empty observation list.\<close>

definition reported :: "'u eyecolors \<Rightarrow> 'u \<Rightarrow> string \<Rightarrow> bool" where
  "reported E u c = (\<exists>e \<in> set (users E). user_id e = u \<and> lower (variation e) = c)"

definition observed :: "'u snp_item list \<Rightarrow> 'u \<Rightarrow> string \<Rightarrow> bool" where
  "observed rs u x =
     (\<exists>i \<in> set rs. ident (user i) = u \<and> genotypes (user i) \<noteq> [] \<and>
        local_genotype (hd (genotypes (user i))) = x)"

definition attributed ::
  "'u eyecolors \<Rightarrow> 'u snp_item list \<Rightarrow> 'u snp_item list \<Rightarrow> 'u snp_item list \<Rightarrow>
   genotype_tuple \<Rightarrow> 'u \<Rightarrow> string \<Rightarrow> bool" where
  "attributed E A B C g u c =
     (reported E u c \<and> observed A u (fst g) \<and> observed B u (fst (snd g)) \<and>
      observed C u (snd (snd g)))"

text \<open>A subject is present in a dataset; a dataset without the records of a subject.\<close>

definition has_color :: "'u eyecolors \<Rightarrow> 'u \<Rightarrow> bool" where
  "has_color E u = (\<exists>e \<in> set (users E). user_id e = u)"

definition has_genotype :: "'u snp_item list \<Rightarrow> 'u \<Rightarrow> bool" where
  "has_genotype rs u = (\<exists>i \<in> set rs. ident (user i) = u \<and> genotypes (user i) \<noteq> [])"

definition without_color :: "'u \<Rightarrow> 'u eyecolors \<Rightarrow> 'u eyecolors" where
  "without_color u E = E\<lparr>users := filter (\<lambda>e. user_id e \<noteq> u) (users E)\<rparr>"

definition without_genotype :: "'u \<Rightarrow> 'u snp_item list \<Rightarrow> 'u snp_item list" where
  "without_genotype u rs = filter (\<lambda>i. ident (user i) \<noteq> u) rs"

section \<open>The extractor\<close>

lemma split_nonempty: "split sep s \<noteq> []"
  by (induction s) (auto split: list.splits)

lemma scan_line_invalid: "\<not> valid_utf8 raw \<Longrightarrow> scan_line s raw = Inl UnicodeDecodeError"
  by (simp add: scan_line_def decode_def)

lemma scan_line_comment:
  "valid_utf8 raw \<Longrightarrow> record_of raw = None \<Longrightarrow> scan_line s raw = Inr s"
  by (simp add: record_of_def scan_line_def decode_def Let_def split: if_splits)

lemma scan_line_record:
  assumes "valid_utf8 raw" and "record_of raw = Some f"
  shows "scan_line s raw =
     (if contains s (hd f)
      then (if 3 < length f then Inr (AList.update (hd f) (Some (f ! 3)) s) else Inl IndexError)
      else Inr s)"
proof -
  from assms have f: "f = split (CHR 0x09) (strip raw)" and nc: "\<not> startswith (strip raw) ''#''"
    by (auto simp: record_of_def Let_def split: if_splits)
  have "f \<noteq> []" unfolding f by (rule split_nonempty)
  then obtain k ks where kk: "f = k # ks" by (cases f) auto
  show ?thesis using nc kk f [symmetric] assms(1)
    by (simp add: scan_line_def decode_def Let_def)
qed

lemma scan_lines_append:
  "scan_lines s (xs @ ys) =
     (case scan_lines s xs of Inl e \<Rightarrow> Inl e | Inr s' \<Rightarrow> scan_lines s' ys)"
  by (induction xs arbitrary: s) (auto split: sum.splits)

lemma occurrences_snoc:
  "occurrences k (lns @ [raw]) =
     occurrences k lns @
       (case record_of raw of None \<Rightarrow> [] | Some f \<Rightarrow> if take 1 f = [k] then [f] else [])"
  by (simp add: occurrences_def map_filter_def split: option.splits)

lemma last_genotype_snoc:
  "last_genotype k (lns @ [raw]) =
     (case record_of raw of
        None \<Rightarrow> last_genotype k lns
      | Some f \<Rightarrow> if take 1 f = [k] then Some (f ! 3) else last_genotype k lns)"
  by (simp add: last_genotype_def occurrences_snoc split: option.splits)

lemma well_formed_snoc:
  "well_formed (lns @ [raw]) =
     (well_formed lns \<and> valid_utf8 raw \<and>
      (case record_of raw of None \<Rightarrow> True
       | Some f \<Rightarrow> list_all (\<lambda>k. take 1 f = [k] \<longrightarrow> 3 < length f) target_ids))"
  by (auto simp: well_formed_def occurrences_snoc list_all_iff split: option.splits)

lemma take1_hd: "f \<noteq> [] \<Longrightarrow> (take (Suc 0) f = [k]) = (hd f = k)"
  by (cases f) auto

lemma record_of_nonempty: "record_of raw = Some f \<Longrightarrow> f \<noteq> []"
  by (auto simp: record_of_def Let_def split_nonempty split: if_splits)

text \<open>On a well-formed file the loop ends without an exception, keeps the keys of
  \<^verbatim>\<open>snps\<close>, and leaves at each target identifier the genotype of its last record.\<close>

lemma scan_lines_spec:
  assumes keys: "set (map fst s) = set target_ids"
    and wf: "well_formed lns"
  shows "\<exists>s'. scan_lines s lns = Inr s' \<and> map fst s' = map fst s \<and>
           (\<forall>k \<in> set target_ids. map_of s' k =
              (case last_genotype k lns of None \<Rightarrow> map_of s k | Some g \<Rightarrow> Some (Some g)))"
  using wf
proof (induction lns rule: rev_induct)
  case Nil
  then show ?case by (simp add: last_genotype_def occurrences_def map_filter_def)
next
  case (snoc raw lns)
  from snoc.prems have wf': "well_formed lns" and vr: "valid_utf8 raw"
    and wfr: "case record_of raw of None \<Rightarrow> True
       | Some f \<Rightarrow> list_all (\<lambda>k. take 1 f = [k] \<longrightarrow> 3 < length f) target_ids"
    by (simp_all add: well_formed_snoc)
  from snoc.IH [OF wf'] obtain s1 where
    s1: "scan_lines s lns = Inr s1" and k1: "map fst s1 = map fst s"
    and v1: "\<forall>k \<in> set target_ids. map_of s1 k =
              (case last_genotype k lns of None \<Rightarrow> map_of s k | Some g \<Rightarrow> Some (Some g))"
    by blast
  have run: "scan_lines s (lns @ [raw]) =
      (case scan_line s1 raw of Inl e \<Rightarrow> Inl e | Inr s' \<Rightarrow> Inr s')"
    by (simp add: scan_lines_append s1 split: sum.splits)
  show ?case
  proof (cases "record_of raw")
    case None
    then show ?thesis using run k1 v1 vr
      by (simp add: scan_line_comment last_genotype_snoc)
  next
    case (Some f)
    then have fne: "f \<noteq> []" by (rule record_of_nonempty)
    show ?thesis
    proof (cases "contains s1 (hd f)")
      case False
      then have "\<forall>k \<in> set target_ids. take 1 f \<noteq> [k]"
        using keys k1 fne by (auto simp: contains_def take1_hd)
      then show ?thesis using run k1 v1 Some False vr
        by (simp add: scan_line_record last_genotype_snoc)
    next
      case True
      then have tgt: "hd f \<in> set target_ids"
        using keys k1 by (simp add: contains_def)
      with wfr Some fne have len: "3 < length f"
        by (simp add: list_all_iff take1_hd)
      have step: "scan_line s1 raw = Inr (AList.update (hd f) (Some (f ! 3)) s1)"
        using Some True len vr by (simp add: scan_line_record)
      have "map fst (AList.update (hd f) (Some (f ! 3)) s1) = map fst s"
        using True k1 by (simp add: update_keys contains_def)
      moreover have "\<forall>k \<in> set target_ids.
          map_of (AList.update (hd f) (Some (f ! 3)) s1) k =
            (case last_genotype k (lns @ [raw]) of
               None \<Rightarrow> map_of s k | Some g \<Rightarrow> Some (Some g))"
        using v1 Some fne by (auto simp: update_conv' last_genotype_snoc take1_hd)
      ultimately show ?thesis using run step by simp
    qed
  qed
qed

text \<open>On any other file the loop raises \<^verbatim>\<open>UnicodeDecodeError\<close> at \<^verbatim>\<open>decode\<close> or
  \<^verbatim>\<open>IndexError\<close> at \<^verbatim>\<open>line_data[3]\<close>.\<close>

lemma scan_lines_ill_formed:
  assumes keys: "set (map fst s) = set target_ids"
    and bad: "\<not> well_formed lns"
  shows "scan_lines s lns = Inl IndexError \<or> scan_lines s lns = Inl UnicodeDecodeError"
  using bad
proof (induction lns rule: rev_induct)
  case Nil
  then show ?case by (simp add: well_formed_def occurrences_def map_filter_def list_all_iff)
next
  case (snoc raw lns)
  show ?case
  proof (cases "well_formed lns")
    case False
    then have "scan_lines s lns = Inl IndexError \<or> scan_lines s lns = Inl UnicodeDecodeError"
      by (rule snoc.IH)
    then show ?thesis by (auto simp: scan_lines_append)
  next
    case True
    from scan_lines_spec [OF keys True] obtain s1 where
      s1: "scan_lines s lns = Inr s1" and k1: "map fst s1 = map fst s"
      by blast
    show ?thesis
    proof (cases "valid_utf8 raw")
      case False
      then have "scan_line s1 raw = Inl UnicodeDecodeError" by (rule scan_line_invalid)
      then show ?thesis by (simp add: scan_lines_append s1)
    next
      case vr: True
      from snoc.prems True vr obtain f k where f: "record_of raw = Some f"
        and k: "k \<in> set target_ids" and hd: "take 1 f = [k]" and short: "\<not> 3 < length f"
        by (auto simp: well_formed_snoc list_all_iff split: option.splits)
      from f have "f \<noteq> []" by (rule record_of_nonempty)
      with hd have "hd f = k" by (simp add: take1_hd)
      with k keys k1 have "contains s1 (hd f)" by (simp add: contains_def)
      with f short vr have "scan_line s1 raw = Inl IndexError" by (simp add: scan_line_record)
      then show ?thesis by (simp add: scan_lines_append s1)
    qed
  qed
qed

lemma your_genotype_ill_formed:
  "\<not> well_formed lns \<Longrightarrow>
   your_genotype lns = Inl IndexError \<or> your_genotype lns = Inl UnicodeDecodeError"
proof -
  assume bad: "\<not> well_formed lns"
  have "set (map fst snps_init) = set target_ids"
    by (auto simp: snps_init_def target_ids_def)
  from scan_lines_ill_formed [OF this bad] show ?thesis by (auto simp: your_genotype_def)
qed

section \<open>The reporter on a tuple that is not in the index\<close>

text \<open>
  C1 (as the code has it). For every index and every tuple that is not a key of the index,
  the lookup \<^verbatim>\<open>genotypes_to_color[your_genotype]\<close> raises \<^verbatim>\<open>KeyError\<close>: the reporter
  produces no distribution and no match count.
\<close>

theorem report_absent_key_error:
  "\<not> contains index genotype \<Longrightarrow> report index genotype = Inl KeyError"
proof -
  assume "\<not> contains index genotype"
  then have "map_of index genotype = None"
    by (simp add: contains_def map_of_eq_None_iff)
  then show ?thesis
    by (simp add: report_def getitem_def bind_err_def)
qed

theorem report_absent_key_error_witness:
  "\<not> contains [((''CC'', ''AG'', ''GG''), [''brown''])] (''CC'', ''AA'', ''GG'')
   \<and> report [((''CC'', ''AG'', ''GG''), [''brown''])] (''CC'', ''AA'', ''GG'') = Inl KeyError"
  using report_absent_key_error [of "[((''CC'', ''AG'', ''GG''), [''brown''])]" "(''CC'', ''AA'', ''GG'')"]
  by (simp add: contains_def)

text \<open>The tuple \<^verbatim>\<open>("TT","AG","GG")\<close> is not a key of the index of the one-subject scenario,
  and the reporter does not return the zero-match result there.\<close>

theorem report_zero_match_counterexample:
  "\<not> contains [((''CC'', ''AG'', ''GG''), [''brown''])] (''TT'', ''AG'', ''GG'')
   \<and> report [((''CC'', ''AG'', ''GG''), [''brown''])] (''TT'', ''AG'', ''GG'') \<noteq> Inr (0, [])"
  by (simp add: contains_def report_def getitem_def bind_err_def)

section \<open>Cell 1 without a qualifying file\<close>

lemma cell1_no_file:
  "find_file_url data = None \<Longrightarrow>
   cell1 requests_get data = ([msg_checking, msg_sorry], Inl NameError)"
  by (simp add: cell1_def)

text \<open>
  C2. A member whose only 23andMe entry is tagged \<^verbatim>\<open>vcf\<close> has no qualifying file. The cell
  prints the instructional message and then evaluates \<^verbatim>\<open>requests.get(file_url_23andme)\<close>
  with the name unbound: it ends in \<^verbatim>\<open>NameError\<close>, whatever \<^verbatim>\<open>requests.get\<close> does.
\<close>

theorem cell1_no_file_name_error:
  "cell1 requests_get
     [\<lparr>source = ''direct-sharing-128'', metadata = \<lparr>tags = [''vcf'']\<rparr>, download_url = ''u1''\<rparr>,
      \<lparr>source = ''direct-sharing-131'', metadata = \<lparr>tags = []\<rparr>, download_url = ''u2''\<rparr>]
   = ([msg_checking, msg_sorry], Inl NameError)"
  by (simp add: cell1_def)

section \<open>The extracted tuple\<close>

text \<open>The tuple of a well-formed file: at each position, in the fixed order of
  \<^const>\<open>target_ids\<close>, the genotype of the last record of that identifier, or the text of
  \<^verbatim>\<open>None\<close> when the identifier has no record.\<close>

lemma your_genotype_spec:
  assumes "well_formed lns"
  shows "your_genotype lns =
     Inr (format_opt (last_genotype ''rs12203592'' lns),
          format_opt (last_genotype ''rs12913832'' lns),
          format_opt (last_genotype ''rs16891982'' lns))"
proof -
  have "set (map fst snps_init) = set target_ids"
    by (auto simp: snps_init_def target_ids_def)
  from scan_lines_spec [OF this assms] obtain s' where
    run: "scan_lines snps_init lns = Inr s'"
    and vals: "\<forall>k \<in> set target_ids. map_of s' k =
        (case last_genotype k lns of None \<Rightarrow> map_of snps_init k | Some g \<Rightarrow> Some (Some g))"
    by blast
  have "map_of s' k = Some (last_genotype k lns)" if "k \<in> set target_ids" for k
    using vals that by (auto simp: snps_init_def target_ids_def split: option.splits)
  then have "map_of s' ''rs12203592'' = Some (last_genotype ''rs12203592'' lns)"
    and "map_of s' ''rs12913832'' = Some (last_genotype ''rs12913832'' lns)"
    and "map_of s' ''rs16891982'' = Some (last_genotype ''rs16891982'' lns)"
    by (simp_all add: target_ids_def)
  then show ?thesis
    by (simp add: your_genotype_def run genotype_of_snps_def getitem_def)
qed

lemma component_simps:
  "component ''rs12203592'' (a, b, c) = a"
  "component ''rs12913832'' (a, b, c) = b"
  "component ''rs16891982'' (a, b, c) = c"
  by (simp_all add: component_def)

lemma your_genotype_component:
  assumes "well_formed lns" and "k \<in> set target_ids"
  shows "\<exists>t. your_genotype lns = Inr t \<and> component k t = format_opt (last_genotype k lns)"
  using assms(2) unfolding your_genotype_spec [OF assms(1)]
  by (auto simp: target_ids_def component_simps)

lemma last_genotype_none: "occurrences k lns = [] \<Longrightarrow> last_genotype k lns = None"
  by (simp add: last_genotype_def)

lemma last_genotype_some:
  "occurrences k lns \<noteq> [] \<Longrightarrow> last_genotype k lns = Some (last (occurrences k lns) ! 3)"
  by (cases "occurrences k lns" rule: rev_cases) (simp_all add: last_genotype_def)

text \<open>
  C4. For every personal file of well-formed lines (UTF-8, a fourth field in every record of
  a target identifier) in which exactly one target identifier \<open>k\<close> has no
  record, the extractor returns. \<^verbatim>\<open>snps[k]\<close> is still the marker \<^verbatim>\<open>None\<close>, which the cell
  prints as \<^verbatim>\<open>Unknown\<close> and formats into the tuple as the text \<^verbatim>\<open>None\<close> at the position
  of \<open>k\<close>; each of the other two positions holds the genotype of the last record of its
  identifier.
\<close>

theorem missing_identifier_unknown:
  assumes "well_formed lns"
    and "k \<in> set target_ids"
    and "occurrences k lns = []"
    and "\<forall>k' \<in> set target_ids. k' \<noteq> k \<longrightarrow> occurrences k' lns \<noteq> []"
  shows "\<exists>s t. scan_lines snps_init lns = Inr s \<and> map_of s k = Some None \<and>
           k @ '':'' @ tab @ ''Unknown'' \<in> set (print_snps s) \<and>
           your_genotype lns = Inr t \<and> component k t = ''None'' \<and>
           (\<forall>k' \<in> set target_ids. k' \<noteq> k \<longrightarrow>
              component k' t = last (occurrences k' lns) ! 3)"
proof -
  let ?t = "(format_opt (last_genotype ''rs12203592'' lns),
          format_opt (last_genotype ''rs12913832'' lns),
          format_opt (last_genotype ''rs16891982'' lns))"
  have "set (map fst snps_init) = set target_ids"
    by (auto simp: snps_init_def target_ids_def)
  from scan_lines_spec [OF this assms(1)] obtain s where
    scan: "scan_lines snps_init lns = Inr s"
    and vals: "\<forall>k \<in> set target_ids. map_of s k =
        (case last_genotype k lns of None \<Rightarrow> map_of snps_init k | Some g \<Rightarrow> Some (Some g))"
    by blast
  have none: "map_of s k = Some None"
    using vals assms(2,3) by (auto simp: last_genotype_none snps_init_def target_ids_def)
  then have "(k, None) \<in> set s" by (rule map_of_SomeD)
  then have "print_snp k None \<in> set (print_snps s)"
    unfolding print_snps_def by force
  then have printed: "k @ '':'' @ tab @ ''Unknown'' \<in> set (print_snps s)"
    by (simp add: print_snp_def)
  have run: "your_genotype lns = Inr ?t" by (rule your_genotype_spec [OF assms(1)])
  have comp: "component j ?t = format_opt (last_genotype j lns)" if "j \<in> set target_ids" for j
    using that by (auto simp: target_ids_def component_simps)
  have "component k ?t = ''None''"
    using comp [OF assms(2)] assms(3) by (simp add: last_genotype_none)
  moreover have "\<forall>k' \<in> set target_ids. k' \<noteq> k \<longrightarrow>
              component k' ?t = last (occurrences k' lns) ! 3"
    using comp assms(4) by (simp add: last_genotype_some)
  ultimately show ?thesis using scan none printed run by blast
qed

theorem missing_identifier_unknown_witness:
  "well_formed [''#comment'',
                ''rs12913832'' @ tab @ ''15'' @ tab @ ''1234'' @ tab @ ''AG'',
                ''rs16891982'' @ tab @ ''5'' @ tab @ ''5678'' @ tab @ ''GG'']
   \<and> ''rs12203592'' \<in> set target_ids
   \<and> occurrences ''rs12203592''
        [''#comment'',
         ''rs12913832'' @ tab @ ''15'' @ tab @ ''1234'' @ tab @ ''AG'',
         ''rs16891982'' @ tab @ ''5'' @ tab @ ''5678'' @ tab @ ''GG''] = []
   \<and> your_genotype
        [''#comment'',
         ''rs12913832'' @ tab @ ''15'' @ tab @ ''1234'' @ tab @ ''AG'',
         ''rs16891982'' @ tab @ ''5'' @ tab @ ''5678'' @ tab @ ''GG'']
       = Inr (''None'', ''AG'', ''GG'')
   \<and> (\<exists>s t. scan_lines snps_init
        [''#comment'',
         ''rs12913832'' @ tab @ ''15'' @ tab @ ''1234'' @ tab @ ''AG'',
         ''rs16891982'' @ tab @ ''5'' @ tab @ ''5678'' @ tab @ ''GG''] = Inr s
        \<and> map_of s ''rs12203592'' = Some None
        \<and> your_genotype
        [''#comment'',
         ''rs12913832'' @ tab @ ''15'' @ tab @ ''1234'' @ tab @ ''AG'',
         ''rs16891982'' @ tab @ ''5'' @ tab @ ''5678'' @ tab @ ''GG''] = Inr t
        \<and> component ''rs12203592'' t = ''None''
        \<and> component ''rs12913832'' t = ''AG'')"
proof -
  let ?L = "[''#comment'',
             ''rs12913832'' @ tab @ ''15'' @ tab @ ''1234'' @ tab @ ''AG'',
             ''rs16891982'' @ tab @ ''5'' @ tab @ ''5678'' @ tab @ ''GG'']"
  have h1: "well_formed ?L" by code_simp
  have h2: "''rs12203592'' \<in> set target_ids" by (simp add: target_ids_def)
  have h3: "occurrences ''rs12203592'' ?L = []" by code_simp
  have h4: "\<forall>k' \<in> set target_ids. k' \<noteq> ''rs12203592'' \<longrightarrow> occurrences k' ?L \<noteq> []"
    by code_simp
  have v: "your_genotype ?L = Inr (''None'', ''AG'', ''GG'')" by code_simp
  from missing_identifier_unknown [OF h1 h2 h3 h4]
  have "\<exists>s t. scan_lines snps_init ?L = Inr s \<and> map_of s ''rs12203592'' = Some None \<and>
      your_genotype ?L = Inr t \<and> component ''rs12203592'' t = ''None'' \<and>
      component ''rs12913832'' t = last (occurrences ''rs12913832'' ?L) ! 3"
    by (auto simp: target_ids_def)
  moreover have "last (occurrences ''rs12913832'' ?L) ! 3 = ''AG''" by code_simp
  ultimately have "\<exists>s t. scan_lines snps_init ?L = Inr s \<and> map_of s ''rs12203592'' = Some None \<and>
      your_genotype ?L = Inr t \<and> component ''rs12203592'' t = ''None'' \<and>
      component ''rs12913832'' t = ''AG''"
    by simp
  with h1 h2 h3 v show ?thesis by blast
qed

text \<open>
  C8. For every personal file of well-formed lines (UTF-8, a fourth field in every record of
  a target identifier) in which a target identifier \<open>k\<close> has one or more
  records, the loop ends with \<^verbatim>\<open>snps[k]\<close> equal to the fourth field of the last of them, and
  that is the value at the position of \<open>k\<close> in the tuple: the last occurrence wins.
\<close>

theorem last_occurrence_wins:
  assumes "well_formed lns"
    and "k \<in> set target_ids"
    and "occurrences k lns \<noteq> []"
  shows "\<exists>s t. scan_lines snps_init lns = Inr s \<and>
           map_of s k = Some (Some (last (occurrences k lns) ! 3)) \<and>
           your_genotype lns = Inr t \<and> component k t = last (occurrences k lns) ! 3"
proof -
  have "set (map fst snps_init) = set target_ids"
    by (auto simp: snps_init_def target_ids_def)
  from scan_lines_spec [OF this assms(1)] obtain s where
    run: "scan_lines snps_init lns = Inr s"
    and vals: "\<forall>k \<in> set target_ids. map_of s k =
        (case last_genotype k lns of None \<Rightarrow> map_of snps_init k | Some g \<Rightarrow> Some (Some g))"
    by blast
  have v: "map_of s k = Some (Some (last (occurrences k lns) ! 3))"
    using vals assms(2,3) by (simp add: last_genotype_some)
  from your_genotype_component [OF assms(1,2)] obtain t where
    "your_genotype lns = Inr t" and "component k t = format_opt (last_genotype k lns)"
    by blast
  then show ?thesis using run v assms(3) by (simp add: last_genotype_some)
qed

theorem last_occurrence_wins_witness:
  "well_formed [''rs12913832'' @ tab @ ''15'' @ tab @ ''1234'' @ tab @ ''AG'',
                ''#rs12913832'' @ tab @ ''15'' @ tab @ ''1234'' @ tab @ ''TT'',
                ''rs12913832'' @ tab @ ''15'' @ tab @ ''1234'' @ tab @ ''GG'',
                ''rs16891982'' @ tab @ ''5'' @ tab @ ''5678'' @ tab @ ''CC'']
   \<and> ''rs12913832'' \<in> set target_ids
   \<and> length (occurrences ''rs12913832''
        [''rs12913832'' @ tab @ ''15'' @ tab @ ''1234'' @ tab @ ''AG'',
         ''#rs12913832'' @ tab @ ''15'' @ tab @ ''1234'' @ tab @ ''TT'',
         ''rs12913832'' @ tab @ ''15'' @ tab @ ''1234'' @ tab @ ''GG'',
         ''rs16891982'' @ tab @ ''5'' @ tab @ ''5678'' @ tab @ ''CC'']) = 2
   \<and> (\<exists>t. your_genotype
        [''rs12913832'' @ tab @ ''15'' @ tab @ ''1234'' @ tab @ ''AG'',
         ''#rs12913832'' @ tab @ ''15'' @ tab @ ''1234'' @ tab @ ''TT'',
         ''rs12913832'' @ tab @ ''15'' @ tab @ ''1234'' @ tab @ ''GG'',
         ''rs16891982'' @ tab @ ''5'' @ tab @ ''5678'' @ tab @ ''CC''] = Inr t
        \<and> component ''rs12913832'' t = ''GG'')"
proof -
  let ?L = "[''rs12913832'' @ tab @ ''15'' @ tab @ ''1234'' @ tab @ ''AG'',
             ''#rs12913832'' @ tab @ ''15'' @ tab @ ''1234'' @ tab @ ''TT'',
             ''rs12913832'' @ tab @ ''15'' @ tab @ ''1234'' @ tab @ ''GG'',
             ''rs16891982'' @ tab @ ''5'' @ tab @ ''5678'' @ tab @ ''CC'']"
  have h1: "well_formed ?L" by code_simp
  have h2: "''rs12913832'' \<in> set target_ids" by (simp add: target_ids_def)
  have occ: "occurrences ''rs12913832'' ?L =
      [[''rs12913832'', ''15'', ''1234'', ''AG''], [''rs12913832'', ''15'', ''1234'', ''GG'']]"
    by code_simp
  then have h3: "occurrences ''rs12913832'' ?L \<noteq> []" by simp
  from last_occurrence_wins [OF h1 h2 h3] occ
  have "\<exists>t. your_genotype ?L = Inr t \<and> component ''rs12913832'' t = ''GG''"
    by auto
  with h1 h2 occ show ?thesis by simp
qed

subsection \<open>Independence of the line order\<close>







subsection \<open>Comment lines\<close>

lemma strip_prefixes_split:
  "\<exists>pre. t = pre @ strip_prefixes ws t \<and> set pre \<subseteq> \<Union> (set ` set ws)"
proof (induction ws t rule: strip_prefixes.induct)
  case (1 ws s)
  show ?case
  proof (cases "s = []")
    case True
    then show ?thesis by (subst strip_prefixes.simps) simp
  next
    case False
    show ?thesis
    proof (cases "match_prefix ws s")
      case 0
      with False have "strip_prefixes ws s = s" by (subst strip_prefixes.simps) simp
      then show ?thesis by simp
    next
      case (Suc k)
      with False have r: "strip_prefixes ws s = strip_prefixes ws (drop (Suc k) s)"
        by (subst strip_prefixes.simps) simp
      from Suc obtain w where f: "find (\<lambda>w. take (length w) s = w) ws = Some w"
        and l: "length w = Suc k"
        by (auto simp: match_prefix_def split: option.splits)
      from f have w: "w \<in> set ws" and t: "take (length w) s = w"
        by (auto simp: find_Some_iff)
      from "1.IH" [OF False Suc] obtain pre where
        p: "drop (Suc k) s = pre @ strip_prefixes ws (drop (Suc k) s)"
        and sub: "set pre \<subseteq> \<Union> (set ` set ws)" by blast
      have "s = take (Suc k) s @ drop (Suc k) s" by simp
      also have "take (Suc k) s = w" using t l by simp
      finally have "s = (w @ pre) @ strip_prefixes ws s" using p r by simp
      moreover have "set (w @ pre) \<subseteq> \<Union> (set ` set ws)" using w sub by auto
      ultimately show ?thesis by blast
    qed
  qed
qed

lemma lstrip_hash: "lstrip (CHR ''#'' # rest) = CHR ''#'' # rest"
proof -
  have "match_prefix whitespace (CHR ''#'' # rest) = 0"
    by (simp add: match_prefix_def whitespace_def)
  then show ?thesis unfolding lstrip_def by (subst strip_prefixes.simps) simp
qed

lemma startswith_strip:
  assumes "startswith raw ''#''"
  shows "startswith (strip raw) ''#''"
proof -
  from assms obtain rest where raw: "raw = CHR ''#'' # rest"
    by (cases raw) (auto simp: startswith_def)
  let ?R = "strip_prefixes (map rev whitespace) (rev raw)"
  from strip_prefixes_split [of "rev raw" "map rev whitespace"] obtain pre where
    p: "rev raw = pre @ ?R" and sub: "set pre \<subseteq> \<Union> (set ` set (map rev whitespace))"
    by blast
  have no: "CHR ''#'' \<notin> \<Union> (set ` set (map rev whitespace))"
    by (simp add: whitespace_def)
  have "?R \<noteq> []"
  proof
    assume "?R = []"
    with p have "set pre = set raw" by (metis append_Nil2 set_rev)
    with sub no raw show False by auto
  qed
  then have "last ?R = last (rev raw)" using p by (metis last_appendR)
  then have "last ?R = CHR ''#''" by (simp add: raw)
  with \<open>?R \<noteq> []\<close> have "hd (rev ?R) = CHR ''#''" by (simp add: hd_rev)
  moreover have "rev ?R \<noteq> []" using \<open>?R \<noteq> []\<close> by simp
  ultimately have "take 1 (rev ?R) = ''#''" by (cases "rev ?R") auto
  then show ?thesis
    by (simp add: startswith_def strip_def rstrip_def raw [symmetric] lstrip_hash [of rest, folded raw])
qed

lemma scan_lines_filter:
  assumes "\<forall>raw \<in> set lns. \<not> P raw \<longrightarrow> valid_utf8 raw \<and> record_of raw = None"
  shows "scan_lines s (filter P lns) = scan_lines s lns"
  using assms
proof (induction lns arbitrary: s)
  case Nil
  show ?case by simp
next
  case (Cons raw rest)
  from Cons.prems have rest: "\<forall>raw \<in> set rest. \<not> P raw \<longrightarrow> valid_utf8 raw \<and> record_of raw = None"
    by simp
  show ?case
  proof (cases "P raw")
    case True
    then show ?thesis by (simp add: Cons.IH [OF rest] split: sum.splits)
  next
    case False
    with Cons.prems have "scan_line s raw = Inr s" by (simp add: scan_line_comment)
    with False show ?thesis by (simp add: Cons.IH [OF rest])
  qed
qed

text \<open>The lines that the loop decodes and skips can be removed, whatever the file.\<close>

lemma skipped_lines_ignored:
  "your_genotype lns =
   your_genotype (filter (\<lambda>raw. \<not> (valid_utf8 raw \<and> startswith (strip raw) ''#'')) lns)"
proof -
  have "scan_lines s
      (filter (\<lambda>raw. \<not> (valid_utf8 raw \<and> startswith (strip raw) ''#'')) lns) =
      scan_lines s lns" for s
    by (rule scan_lines_filter) (simp add: record_of_def)
  then show ?thesis by (simp add: your_genotype_def)
qed

text \<open>
  C9 (as the code has it). The loop decodes every line before it tests for the comment
  marker. For every personal file whose lines beginning with \<^verbatim>\<open>#\<close> are well-formed UTF-8,
  these lines are skipped and influence nothing: the result of the extractor (a tuple or an
  exception) is the result on the file without them, and so is the result of the loop from
  any \<^verbatim>\<open>snps\<close>.
\<close>

theorem comment_lines_ignored:
  assumes "\<forall>raw \<in> set lns. startswith raw ''#'' \<longrightarrow> valid_utf8 raw"
  shows "your_genotype lns = your_genotype (filter (\<lambda>raw. \<not> startswith raw ''#'') lns)
   \<and> scan_lines snps (filter (\<lambda>raw. \<not> startswith raw ''#'') lns) = scan_lines snps lns"
proof -
  have a: "scan_lines s (filter (\<lambda>raw. \<not> startswith raw ''#'') lns) = scan_lines s lns" for s
    by (rule scan_lines_filter) (use assms in \<open>simp add: record_of_def startswith_strip\<close>)
  show ?thesis by (simp add: your_genotype_def a)
qed

theorem comment_lines_ignored_witness:
  "valid_utf8 (''# caf'' @ [CHR 0xC3, CHR 0xA9] @ '' comment'')
   \<and> your_genotype
        [''# caf'' @ [CHR 0xC3, CHR 0xA9] @ '' comment'',
         ''rs12913832'' @ tab @ ''15'' @ tab @ ''1234'' @ tab @ ''AG'',
         ''#rs12913832'' @ tab @ ''15'' @ tab @ ''1234'' @ tab @ ''TT'',
         ''rs16891982'' @ tab @ ''5'' @ tab @ ''5678'' @ tab @ ''GG'']
       = your_genotype
        [''rs12913832'' @ tab @ ''15'' @ tab @ ''1234'' @ tab @ ''AG'',
         ''rs16891982'' @ tab @ ''5'' @ tab @ ''5678'' @ tab @ ''GG'']
   \<and> your_genotype
        [''rs12913832'' @ tab @ ''15'' @ tab @ ''1234'' @ tab @ ''AG'',
         ''rs16891982'' @ tab @ ''5'' @ tab @ ''5678'' @ tab @ ''GG'']
       = Inr (''None'', ''AG'', ''GG'')"
proof -
  let ?L = "[''# caf'' @ [CHR 0xC3, CHR 0xA9] @ '' comment'',
         ''rs12913832'' @ tab @ ''15'' @ tab @ ''1234'' @ tab @ ''AG'',
         ''#rs12913832'' @ tab @ ''15'' @ tab @ ''1234'' @ tab @ ''TT'',
         ''rs16891982'' @ tab @ ''5'' @ tab @ ''5678'' @ tab @ ''GG'']"
  let ?M = "[''rs12913832'' @ tab @ ''15'' @ tab @ ''1234'' @ tab @ ''AG'',
         ''rs16891982'' @ tab @ ''5'' @ tab @ ''5678'' @ tab @ ''GG'']"
  have v: "valid_utf8 (''# caf'' @ [CHR 0xC3, CHR 0xA9] @ '' comment'')" by code_simp
  have h: "\<forall>raw \<in> set ?L. startswith raw ''#'' \<longrightarrow> valid_utf8 raw" by code_simp
  have f: "filter (\<lambda>raw. \<not> startswith raw ''#'') ?L = ?M" by code_simp
  have r: "your_genotype ?M = Inr (''None'', ''AG'', ''GG'')" by code_simp
  from comment_lines_ignored [OF h] have "your_genotype ?L = your_genotype ?M"
    by (simp only: f)
  with v r show ?thesis by (intro conjI)
qed

text \<open>A comment line that is not UTF-8 (the byte 0xE9 alone is Latin-1, not UTF-8) makes
  the cell raise, where the file without the comment line yields a tuple.\<close>

theorem comment_lines_ignored_counterexample:
  "startswith (''# caf'' @ [CHR 0xE9] @ '' comment'') ''#''
   \<and> your_genotype
        [''# caf'' @ [CHR 0xE9] @ '' comment'',
         ''rs12913832'' @ tab @ ''15'' @ tab @ ''1234'' @ tab @ ''AG'',
         ''rs16891982'' @ tab @ ''5'' @ tab @ ''5678'' @ tab @ ''GG'',
         ''rs12203592'' @ tab @ ''6'' @ tab @ ''9012'' @ tab @ ''CC'']
       = Inl UnicodeDecodeError
   \<and> your_genotype
        [''rs12913832'' @ tab @ ''15'' @ tab @ ''1234'' @ tab @ ''AG'',
         ''rs16891982'' @ tab @ ''5'' @ tab @ ''5678'' @ tab @ ''GG'',
         ''rs12203592'' @ tab @ ''6'' @ tab @ ''9012'' @ tab @ ''CC'']
       = Inr (''CC'', ''AG'', ''GG'')"
  by code_simp

section \<open>The reporter: tallying and sorting\<close>

lemma first_seen_filter: "first_seen (filter P ys) = filter P (first_seen ys)"
proof (induction ys)
  case Nil
  show ?case by simp
next
  case (Cons y ys)
  show ?case
  proof (cases "P y")
    case True
    then show ?thesis by (simp add: Cons.IH removeAll_filter_not_eq conj_commute)
  next
    case False
    then have "filter P (removeAll y (first_seen ys)) = filter P (first_seen ys)"
      by (auto simp: removeAll_filter_not_eq intro: filter_cong)
    with False show ?thesis by (simp add: Cons.IH)
  qed
qed

lemma tally_step_keys:
  "map fst (tally_step d x) = (if x \<in> set (map fst d) then map fst d else map fst d @ [x])"
proof (cases "map_of d x")
  case None
  then have "x \<notin> fst ` set d" by (simp add: map_of_eq_None_iff)
  then show ?thesis using None by (simp add: tally_step_def update_keys)
next
  case (Some n)
  then have "x \<in> dom (map_of d)" by (rule domI)
  then have "x \<in> fst ` set d" by (simp only: dom_map_of_conv_image_fst)
  then show ?thesis using Some by (simp add: tally_step_def update_keys)
qed

lemma foldl_tally_keys:
  "map fst (foldl tally_step d cs) =
     map fst d @ first_seen (filter (\<lambda>c. c \<notin> set (map fst d)) cs)"
proof (induction cs arbitrary: d)
  case Nil
  show ?case by simp
next
  case (Cons x xs)
  show ?case
  proof (cases "x \<in> set (map fst d)")
    case True
    then show ?thesis by (simp add: Cons.IH tally_step_keys)
  next
    case False
    let ?K = "set (map fst d)"
    have k: "map fst (tally_step d x) = map fst d @ [x]"
      using False by (simp add: tally_step_keys)
    have a: "filter (\<lambda>c. c \<notin> set (map fst d @ [x])) xs =
          filter (\<lambda>c. x \<noteq> c) (filter (\<lambda>c. c \<notin> ?K) xs)"
      by (induction xs) auto
    have b: "removeAll x (first_seen ys) = first_seen (filter (\<lambda>c. x \<noteq> c) ys)" for ys
      by (simp only: first_seen_filter removeAll_filter_not_eq)
    have "map fst (foldl tally_step d (x # xs)) = map fst (foldl tally_step (tally_step d x) xs)"
      by simp
    also have "\<dots> = map fst (tally_step d x) @
          first_seen (filter (\<lambda>c. c \<notin> set (map fst (tally_step d x))) xs)"
      by (rule Cons.IH)
    also have "\<dots> = map fst d @ x # removeAll x (first_seen (filter (\<lambda>c. c \<notin> ?K) xs))"
      by (simp only: k a b append_Cons append_Nil append_assoc)
    also have "\<dots> = map fst d @ first_seen (filter (\<lambda>c. c \<notin> ?K) (x # xs))"
      using False by simp
    finally show ?thesis .
  qed
qed

lemma tally_keys: "map fst (tally cs) = first_seen cs"
  by (simp add: tally_def foldl_tally_keys)

lemma tally_step_distinct: "distinct (map fst d) \<Longrightarrow> distinct (map fst (tally_step d x))"
  by (simp add: tally_step_keys)

lemma foldl_tally_distinct:
  "distinct (map fst d) \<Longrightarrow> distinct (map fst (foldl tally_step d cs))"
  by (induction cs arbitrary: d) (simp_all add: tally_step_distinct)

lemma tally_distinct: "distinct (map fst (tally cs))"
  by (simp add: tally_def foldl_tally_distinct)

lemma tally_step_map_of:
  "map_of (tally_step d x) l =
     (if l = x then Some ((case map_of d x of None \<Rightarrow> 0 | Some n \<Rightarrow> n) + 1) else map_of d l)"
  by (simp add: tally_step_def update_conv' split: option.splits)

lemma foldl_tally_map_of:
  "map_of (foldl tally_step d cs) l =
     (if l \<in> set cs
      then Some ((case map_of d l of None \<Rightarrow> 0 | Some n \<Rightarrow> n) + int (count_list cs l))
      else map_of d l)"
proof (induction cs arbitrary: d)
  case Nil
  show ?case by simp
next
  case (Cons x xs)
  show ?case
    by (simp add: Cons.IH tally_step_map_of count_list_0_iff split: option.splits)
qed

lemma tally_map_of:
  "map_of (tally cs) l = (if l \<in> set cs then Some (int (count_list cs l)) else None)"
  by (simp add: tally_def foldl_tally_map_of)

lemma tally_entry: "p \<in> set (tally cs) \<Longrightarrow> snd p = int (count_list cs (fst p))"
proof -
  assume "p \<in> set (tally cs)"
  then have "map_of (tally cs) (fst p) = Some (snd p)"
    using tally_distinct [of cs] by simp
  then show ?thesis by (simp add: tally_map_of split: if_splits)
qed

lemma update_sum_None:
  "map_of d k = None \<Longrightarrow> sum_list (map snd (AList.update k v d)) = sum_list (map snd d) + (v::int)"
  by (induction d) (auto split: if_splits)

lemma update_sum_Some:
  "map_of d k = Some n \<Longrightarrow>
   sum_list (map snd (AList.update k v d)) = sum_list (map snd d) - n + (v::int)"
  by (induction d) (auto split: if_splits)

lemma tally_step_sum: "sum_list (map snd (tally_step d x)) = sum_list (map snd d) + 1"
  by (cases "map_of d x") (simp_all add: tally_step_def update_sum_None update_sum_Some)

lemma foldl_tally_sum:
  "sum_list (map snd (foldl tally_step d cs)) = sum_list (map snd d) + int (length cs)"
  by (induction cs arbitrary: d) (simp_all add: tally_step_sum)

lemma tally_sum: "sum_list (map snd (tally cs)) = int (length cs)"
  by (simp add: tally_def foldl_tally_sum)

lemma tally_Nil_iff: "tally cs = [] \<longleftrightarrow> cs = []"
proof
  assume "tally cs = []"
  then have "sum_list (map snd (tally cs)) = 0" by simp
  then show "cs = []" by (simp add: tally_sum)
next
  assume "cs = []"
  then show "tally cs = []" by (simp add: tally_def)
qed

lemma insort_key_sum:
  "sum_list (map g (insort_key f x xs)) = g x + sum_list (map (g::'a \<Rightarrow> int) xs)"
  by (induction xs) simp_all

lemma sort_key_sum: "sum_list (map g (sort_key f xs)) = sum_list (map (g::'a \<Rightarrow> int) xs)"
  by (induction xs) (simp_all add: insort_key_sum)

lemma sorted_reverse_sum:
  "sum_list (map g (sorted_reverse key xs)) = sum_list (map (g::'a \<Rightarrow> int) xs)"
proof -
  have "sum_list (map g (sorted_reverse key xs)) = sum_list (rev (map g (sort_key key (rev xs))))"
    by (simp add: sorted_reverse_def rev_map)
  also have "\<dots> = sum_list (map g (sort_key key (rev xs)))" by (simp only: sum_list_rev)
  also have "\<dots> = sum_list (map g (rev xs))" by (rule sort_key_sum)
  also have "\<dots> = sum_list (rev (map g xs))" by (simp only: rev_map)
  also have "\<dots> = sum_list (map g xs)" by (simp only: sum_list_rev)
  finally show ?thesis .
qed

lemma sorted_reverse_set: "set (sorted_reverse key xs) = set xs"
  by (simp add: sorted_reverse_def)

lemma sorted_reverse_Nil_iff: "sorted_reverse key xs = [] \<longleftrightarrow> xs = []"
  by (metis sorted_reverse_set set_empty)

lemma sorted_reverse_descending:
  "sorted_wrt (\<lambda>a b. key b \<le> key a) (sorted_reverse key xs)"
proof -
  have "sorted (map key (sort_key key (rev xs)))" by (rule sorted_sort_key)
  then have "sorted_wrt (\<lambda>a b. key a \<le> key b) (sort_key key (rev xs))"
    by (simp add: sorted_map)
  then show ?thesis by (simp add: sorted_reverse_def sorted_wrt_rev)
qed

lemma sorted_reverse_stable:
  "filter (\<lambda>y. key y = k) (sorted_reverse key xs) = filter (\<lambda>y. key y = k) xs"
proof -
  have "filter (\<lambda>y. key y = k) (sorted_reverse key xs) =
        rev (filter (\<lambda>y. key y = k) (sort_key key (rev xs)))"
    by (simp add: sorted_reverse_def rev_filter)
  also have "\<dots> = rev (filter (\<lambda>y. key y = k) (rev xs))" by (simp only: sort_key_stable)
  also have "\<dots> = filter (\<lambda>y. key y = k) xs" by (simp add: rev_filter)
  finally show ?thesis .
qed

section \<open>Division of integers\<close>

lemma round_half_even_error: "\<bar>of_int (round_half_even x) - x\<bar> \<le> 1 / 2"
proof -
  have "of_int \<lfloor>x\<rfloor> \<le> x" and "x < of_int \<lfloor>x\<rfloor> + 1" by linarith+
  then show ?thesis
    by (auto simp: round_half_even_def tie_to_even_def)
qed

lemma exp_down_bounds:
  "0 < a \<Longrightarrow> a < b \<Longrightarrow> b \<le> a * 2 ^ exp_down a b \<and> a * 2 ^ exp_down a b < 2 * b"
proof (induction a b rule: exp_down.induct)
  case (1 a b)
  show ?case
  proof (cases "2 * a < b")
    case True
    with "1.prems" have "b \<le> 2 * a * 2 ^ exp_down (2 * a) b \<and> 2 * a * 2 ^ exp_down (2 * a) b < 2 * b"
      by (intro "1.IH") auto
    moreover have "exp_down a b = Suc (exp_down (2 * a) b)"
      using "1.prems" by (subst exp_down.simps) simp
    ultimately show ?thesis by (simp add: mult.assoc)
  next
    case False
    have "exp_down a b = Suc (exp_down (2 * a) b)"
      using "1.prems" by (subst exp_down.simps) simp
    moreover have "exp_down (2 * a) b = 0"
      using False "1.prems" by (subst exp_down.simps) simp
    ultimately show ?thesis using False "1.prems" by simp
  qed
qed

lemma pow2_power_int: "pow2 p = power_int 2 p"
  by (simp add: pow2_def power_int_def field_simps)

lemma pow2_pos: "0 < pow2 p"
  by (simp add: pow2_power_int)

lemma pow2_add: "pow2 (p + q) = pow2 p * pow2 q"
  by (simp add: pow2_power_int power_int_add)

lemma pow2_neg: "pow2 (- int k) = 1 / 2 ^ k"
  by (simp add: pow2_def)

lemma pow2_le_one: "p \<le> 0 \<Longrightarrow> pow2 p \<le> 1"
  by (simp add: pow2_def field_simps)

text \<open>The exponent of a quotient in \<open>(0, 1]\<close>.\<close>

lemma exponent_bounds:
  assumes "0 < a" "a \<le> b"
  shows "exponent a b \<le> 0" and "pow2 (exponent a b) \<le> of_int a / of_int b"
    and "of_int a / of_int b < 2 * pow2 (exponent a b)"
proof -
  have "exponent a b \<le> 0 \<and> pow2 (exponent a b) \<le> of_int a / of_int b \<and>
        of_int a / of_int b < 2 * pow2 (exponent a b)"
  proof (cases "a = b")
    case True
    have "exp_up b b = 0" using assms True by (subst exp_up.simps) simp
    then show ?thesis using True assms by (simp add: exponent_def pow2_def)
  next
    case False
    with assms have lt: "a < b" by simp
    let ?k = "exp_down a b"
    from exp_down_bounds [OF assms(1) lt]
    have lo: "b \<le> a * 2 ^ ?k" and hi: "a * 2 ^ ?k < 2 * b" by simp_all
    from lo have "(of_int b :: rat) \<le> of_int (a * 2 ^ ?k)" by (simp only: of_int_le_iff)
    then have lo': "(of_int b :: rat) \<le> of_int a * 2 ^ ?k" by simp
    from hi have "(of_int (a * 2 ^ ?k) :: rat) < of_int (2 * b)" by (simp only: of_int_less_iff)
    then have hi': "(of_int a :: rat) * 2 ^ ?k < 2 * of_int b" by simp
    have bpos: "(0 :: rat) < of_int b" using assms by simp
    have e: "exponent a b = - int ?k" using lt by (simp add: exponent_def)
    have "1 / 2 ^ ?k \<le> (of_int a :: rat) / of_int b"
      using lo' bpos by (simp add: field_simps)
    moreover have "(of_int a :: rat) / of_int b < 2 * (1 / 2 ^ ?k)"
      using hi' bpos by (simp add: field_simps)
    ultimately show ?thesis by (simp add: e pow2_neg)
  qed
  then show "exponent a b \<le> 0" and "pow2 (exponent a b) \<le> of_int a / of_int b"
    and "of_int a / of_int b < 2 * pow2 (exponent a b)" by simp_all
qed

lemma round_double_error:
  "\<bar>round_double a b - of_int a / of_int b\<bar> \<le> pow2 (max (exponent a b) (- 1022) - 53)"
proof -
  let ?p = "max (exponent a b) (- 1022) - 52"
  let ?m = "of_int a / of_int b / pow2 ?p"
  have q: "of_int a / of_int b = ?m * pow2 ?p"
    using pow2_pos [of ?p] by simp
  have "round_double a b - of_int a / of_int b = (of_int (round_half_even ?m) - ?m) * pow2 ?p"
    unfolding round_double_def round_at_def by (subst (2) q) (simp only: left_diff_distrib)
  then have "\<bar>round_double a b - of_int a / of_int b\<bar> =
      \<bar>of_int (round_half_even ?m) - ?m\<bar> * pow2 ?p"
    using pow2_pos [of ?p] by (simp add: abs_mult)
  also have "\<dots> \<le> 1 / 2 * pow2 ?p"
    using round_half_even_error [of ?m] pow2_pos [of ?p] by (intro mult_right_mono) simp_all
  also have "\<dots> = pow2 (- 1) * pow2 ?p" by (simp add: pow2_def)
  also have "\<dots> = pow2 (max (exponent a b) (- 1022) - 53)"
    by (simp add: pow2_add [symmetric])
  finally show ?thesis .
qed

text \<open>A quotient in \<open>(0, 1]\<close> does not overflow.\<close>

lemma true_divide_unit:
  assumes "0 < a" "a \<le> b"
  shows "true_divide a b = Inr (round_double a b)"
proof -
  let ?q = "(of_int a :: rat) / of_int b"
  have "?q \<le> 1" using assms by simp
  moreover have "pow2 (max (exponent a b) (- 1022) - 53) \<le> 1"
    using exponent_bounds(1) [OF assms] by (intro pow2_le_one) simp
  ultimately have "round_double a b \<le> 2"
    using round_double_error [of a b] by linarith
  moreover have "(2 :: rat) < of_int (2 ^ 1024)" by simp
  ultimately have "\<not> of_int (2 ^ 1024) \<le> round_double a b" by linarith
  then show ?thesis using assms by (simp add: true_divide_def float_result_def)
qed

lemma exponent_ge:
  assumes "0 < a" "a \<le> b" "b < 2 ^ N"
  shows "- int N \<le> exponent a b"
proof (cases "a = b")
  case True
  have "exp_up b b = 0" using assms True by (subst exp_up.simps) simp
  then show ?thesis using True by (simp add: exponent_def)
next
  case False
  with assms have lt: "a < b" by simp
  let ?k = "exp_down a b"
  from exp_down_bounds [OF assms(1) lt] have hi: "a * 2 ^ ?k < 2 * b" by simp
  have "(2 :: int) ^ ?k \<le> a * 2 ^ ?k" using assms(1) by simp
  also note hi
  also have "2 * b < 2 * 2 ^ N" using assms(3) by simp
  finally have "(2 :: int) ^ ?k < 2 ^ Suc N" by simp
  then have "?k < Suc N" by (rule power_less_imp_less_exp [rotated]) simp
  then show ?thesis using lt by (simp add: exponent_def)
qed

text \<open>Above the subnormal range the relative error is at most \<open>2\<^sup>-\<^sup>5\<^sup>3\<close>.\<close>

lemma round_double_relative:
  assumes "0 < a" "a \<le> b" "b < 2 ^ 1022"
  shows "\<bar>round_double a b - of_int a / of_int b\<bar> \<le> of_int a / of_int b / 2 ^ 53"
proof -
  let ?q = "(of_int a :: rat) / of_int b"
  let ?e = "exponent a b"
  have "- int 1022 \<le> ?e" by (rule exponent_ge [OF assms])
  then have m: "max ?e (- 1022) = ?e" by simp
  have "\<bar>round_double a b - ?q\<bar> \<le> pow2 (?e + (- 53))"
    using round_double_error [of a b] by (simp add: m)
  also have "\<dots> = pow2 ?e * pow2 (- 53)" by (simp only: pow2_add)
  also have "\<dots> = pow2 ?e / 2 ^ 53" by (simp add: pow2_def)
  also have "\<dots> \<le> ?q / 2 ^ 53"
    using exponent_bounds(2) [OF assms(1,2)] by (simp add: divide_right_mono)
  finally show ?thesis .
qed

section \<open>The reporter: the distribution\<close>

lemma color_counts_entry:
  "p \<in> set (color_counts colors) \<Longrightarrow> snd p = int (count_list colors (fst p))"
  by (simp add: color_counts_def sorted_reverse_set tally_entry)

lemma color_counts_descending:
  "sorted_wrt (\<lambda>a b. count_list colors (fst b) \<le> count_list colors (fst a)) (color_counts colors)"
proof -
  have "sorted_wrt (\<lambda>a b. snd b \<le> snd a) (color_counts colors)"
    unfolding color_counts_def by (rule sorted_reverse_descending)
  then show ?thesis
  proof (rule sorted_wrt_mono_rel [rotated])
    fix a b
    assume "a \<in> set (color_counts colors)" and "b \<in> set (color_counts colors)"
      and "snd b \<le> snd a"
    then show "count_list colors (fst b) \<le> count_list colors (fst a)"
      by (simp add: color_counts_entry)
  qed
qed

lemma color_counts_stable:
  "filter (\<lambda>l. count_list colors l = c) (map fst (color_counts colors)) =
   filter (\<lambda>l. count_list colors l = c) (first_seen colors)"
proof -
  let ?P = "\<lambda>p :: string \<times> int. count_list colors (fst p) = c"
  let ?Q = "\<lambda>p :: string \<times> int. snd p = int c"
  have "filter ?P (color_counts colors) = filter ?Q (color_counts colors)"
    by (rule filter_cong) (auto simp: color_counts_entry)
  also have "\<dots> = filter ?Q (tally colors)"
    unfolding color_counts_def by (rule sorted_reverse_stable)
  also have "\<dots> = filter ?P (tally colors)"
    by (rule filter_cong) (auto simp: tally_entry)
  finally have eq: "filter ?P (color_counts colors) = filter ?P (tally colors)" .
  have e: "filter (\<lambda>l. count_list colors l = c) (map fst xs) = map fst (filter ?P xs)" for xs
    by (simp add: filter_map comp_def)
  have "filter (\<lambda>l. count_list colors l = c) (map fst (color_counts colors)) =
        filter (\<lambda>l. count_list colors l = c) (map fst (tally colors))"
    by (simp only: e eq)
  then show ?thesis by (simp only: tally_keys)
qed

lemma color_counts_labels:
  "distinct (map fst (color_counts colors)) \<and> set (map fst (color_counts colors)) = set colors"
proof -
  have "distinct (color_counts colors)"
    unfolding color_counts_def sorted_reverse_def
    using tally_distinct [of colors] by (simp add: distinct_map)
  moreover have "inj_on fst (set (color_counts colors))"
    unfolding color_counts_def sorted_reverse_set
    using tally_distinct [of colors] by (simp add: distinct_map)
  ultimately have "distinct (map fst (color_counts colors))" by (simp add: distinct_map)
  moreover have "set (map fst (color_counts colors)) = set (map fst (tally colors))"
    by (simp add: color_counts_def sorted_reverse_set)
  moreover have "set (map fst (tally colors)) = set colors"
  proof -
    have "dom (map_of (tally colors)) = set colors"
      by (auto simp: tally_map_of split: if_splits)
    then show ?thesis by (simp add: dom_map_of_conv_image_fst)
  qed
  ultimately show ?thesis by simp
qed

lemma color_counts_range:
  assumes "p \<in> set (color_counts colors)"
  shows "0 < snd p \<and> snd p \<le> int (length colors)"
proof -
  from assms have "fst p \<in> set (map fst (color_counts colors))" by simp
  then have "fst p \<in> set colors" by (simp only: color_counts_labels)
  then have "count_list colors (fst p) \<noteq> 0" by (simp add: count_list_0_iff)
  then have "0 < count_list colors (fst p)" by simp
  moreover have "count_list colors (fst p) \<le> length colors" by (rule count_le_length)
  ultimately show ?thesis by (simp add: color_counts_entry [OF assms])
qed

lemma color_count_percentages_ok:
  "\<forall>item \<in> set counts. 0 < snd item \<and> snd item \<le> n \<Longrightarrow>
   color_count_percentages n counts =
     Inr (map (\<lambda>item. (fst item, round_double (snd item) n)) counts)"
  by (induction counts) (simp_all add: bind_err_def true_divide_unit)

lemma color_counts_sum: "color_count_sum (color_counts colors) = int (length colors)"
  by (simp add: color_count_sum_def color_counts_def sorted_reverse_sum tally_sum)

lemma color_counts_Nil_iff: "color_counts colors = [] \<longleftrightarrow> colors = []"
  by (simp add: color_counts_def sorted_reverse_Nil_iff tally_Nil_iff)

lemma report_found:
  assumes "map_of index genotype = Some colors"
  shows "report index genotype =
     Inr (int (length colors),
          map (\<lambda>item. (fst item, round_double (snd item) (int (length colors))))
            (color_counts colors))"
proof -
  have "\<forall>item \<in> set (color_counts colors). 0 < snd item \<and> snd item \<le> int (length colors)"
    by (blast dest: color_counts_range)
  then show ?thesis
    by (simp add: report_def getitem_def bind_err_def assms Let_def color_counts_sum
        color_count_percentages_ok)
qed

lemma report_Inr_found:
  assumes "report index genotype = Inr r"
  shows "\<exists>colors. map_of index genotype = Some colors"
  using assms by (cases "map_of index genotype") (simp_all add: report_def getitem_def bind_err_def)

lemma quotients_sum:
  assumes "n \<noteq> 0"
  shows "sum_list (map (\<lambda>item. (of_int (snd item) :: rat) / of_int n) counts)
         = of_int (sum_list (map snd counts)) / of_int n"
  by (induction counts) (simp_all add: add_divide_distrib)

lemma sum_list_divide:
  "sum_list (map (\<lambda>x. g x / c) xs) = sum_list (map g xs) / (c :: rat)"
  by (induction xs) (simp_all add: add_divide_distrib)

lemma sum_list_abs_diff:
  "\<forall>x \<in> set xs. \<bar>f x - g x\<bar> \<le> h x \<Longrightarrow>
   \<bar>sum_list (map f xs) - sum_list (map g xs)\<bar> \<le> sum_list (map h xs :: rat list)"
proof (induction xs)
  case Nil
  show ?case by simp
next
  case (Cons x xs)
  then have "\<bar>f x - g x\<bar> \<le> h x"
    and "\<bar>sum_list (map f xs) - sum_list (map g xs)\<bar> \<le> sum_list (map h xs)"
    by simp_all
  then show ?case by simp
qed

text \<open>
  C6. Whenever the reporter returns a match count \<open>n\<close> and a distribution, the distribution is
  non-empty exactly when \<open>0 < n\<close>. Its shares are the floats nearest to the quotients
  \<^verbatim>\<open>count / n\<close> of the tallied counts. Taken as rationals the quotients sum to 1 exactly; the
  floats sum to 1 within \<open>2\<^sup>-\<^sup>5\<^sup>3\<close> (their exact sum, for fewer than \<open>2\<^sup>1\<^sup>0\<^sup>2\<^sup>2\<close> matched
  subjects, which is every list that Python can hold).
\<close>

theorem shares_sum_to_one:
  assumes "report index genotype = Inr (n, shares)"
  shows "(shares \<noteq> [] \<longleftrightarrow> 0 < n) \<and>
     (\<exists>colors. map_of index genotype = Some colors \<and> n = int (length colors) \<and>
        map snd shares = map (\<lambda>item. round_double (snd item) n) (color_counts colors) \<and>
        (0 < n \<longrightarrow>
           sum_list (map (\<lambda>item. of_int (snd item) / of_int n) (color_counts colors))
             = (1 :: rat))) \<and>
     (0 < n \<and> n < 2 ^ 1022 \<longrightarrow> \<bar>sum_list (map snd shares) - 1\<bar> \<le> 1 / 2 ^ 53)"
proof -
  from report_Inr_found [OF assms] obtain colors where
    found: "map_of index genotype = Some colors" ..
  let ?cs = "color_counts colors"
  let ?q = "\<lambda>item :: string \<times> int. (of_int (snd item) :: rat) / of_int n"
  let ?f = "\<lambda>item :: string \<times> int. round_double (snd item) n"
  from assms have n: "n = int (length colors)"
    and sh: "shares = map (\<lambda>item. (fst item, round_double (snd item) n)) ?cs"
    by (auto simp: report_found [OF found])
  have vals: "map snd shares = map ?f ?cs" by (simp add: sh comp_def)
  have a: "shares \<noteq> [] \<longleftrightarrow> 0 < n"
    by (simp add: sh color_counts_Nil_iff n)
  have exact: "sum_list (map ?q ?cs) = 1" if "0 < n"
  proof -
    from that have nz: "n \<noteq> 0" by simp
    have "sum_list (map snd ?cs) = n"
      using color_counts_sum [of colors] by (simp add: color_count_sum_def n)
    then show ?thesis unfolding quotients_sum [OF nz] using nz by simp
  qed
  have near: "\<bar>sum_list (map snd shares) - 1\<bar> \<le> 1 / 2 ^ 53" if pos: "0 < n" and small: "n < 2 ^ 1022"
  proof -
    have "\<forall>item \<in> set ?cs. \<bar>?f item - ?q item\<bar> \<le> ?q item / 2 ^ 53"
    proof
      fix item
      assume "item \<in> set ?cs"
      then have "0 < snd item" and "snd item \<le> n"
        using color_counts_range [of item colors] by (simp_all add: n)
      then show "\<bar>?f item - ?q item\<bar> \<le> ?q item / 2 ^ 53"
        using small by (rule round_double_relative)
    qed
    then have "\<bar>sum_list (map ?f ?cs) - sum_list (map ?q ?cs)\<bar>
        \<le> sum_list (map (\<lambda>item. ?q item / 2 ^ 53) ?cs)"
      by (rule sum_list_abs_diff)
    also have "\<dots> = sum_list (map ?q ?cs) / 2 ^ 53" by (rule sum_list_divide)
    finally show ?thesis by (simp only: vals exact [OF pos])
  qed
  from found n vals exact have b: "\<exists>colors. map_of index genotype = Some colors \<and>
      n = int (length colors) \<and> map snd shares = map ?f (color_counts colors) \<and>
      (0 < n \<longrightarrow> sum_list (map ?q (color_counts colors)) = 1)"
    by blast
  from a b near show ?thesis by blast
qed

theorem shares_sum_to_one_witness:
  "report [((''CC'', ''AG'', ''GG''), [''brown'', ''blue'', ''blue'', ''green'', ''blue'', ''brown''])]
      (''CC'', ''AG'', ''GG'')
     = Inr (6, [(''blue'', 1 / 2), (''brown'', 6004799503160661 / 18014398509481984),
                (''green'', 6004799503160661 / 36028797018963968)])
   \<and> (0::int) < 6
   \<and> sum_list (map snd [(''blue'', 1 / 2 :: rat), (''brown'', 6004799503160661 / 18014398509481984),
                (''green'', 6004799503160661 / 36028797018963968)]) = 1 - 1 / 2 ^ 55
   \<and> \<bar>sum_list (map snd [(''blue'', 1 / 2 :: rat), (''brown'', 6004799503160661 / 18014398509481984),
                (''green'', 6004799503160661 / 36028797018963968)]) - 1\<bar> \<le> 1 / 2 ^ 53"
proof -
  let ?shares = "[(''blue'', 1 / 2 :: rat), (''brown'', 6004799503160661 / 18014398509481984),
                (''green'', 6004799503160661 / 36028797018963968)]"
  have r: "report [((''CC'', ''AG'', ''GG''), [''brown'', ''blue'', ''blue'', ''green'', ''blue'', ''brown''])]
      (''CC'', ''AG'', ''GG'') = Inr (6, ?shares)"
    by code_simp
  have small: "(0::int) < 6 \<and> (6::int) < 2 ^ 1022" by simp
  from shares_sum_to_one [OF r] small
  have near: "\<bar>sum_list (map snd ?shares) - 1\<bar> \<le> 1 / 2 ^ 53" by blast
  have val: "sum_list (map snd ?shares) = 1 - 1 / 2 ^ 55" by simp
  from r small val near show ?thesis by blast
qed

text \<open>
  C7. For every list of matched labels \<open>colors\<close> found in the index, the reporter returns a
  distribution that is non-increasing by raw count (the number of occurrences of the label in
  \<open>colors\<close>), and stable: for each count, the labels with that count appear in the order of
  their first occurrence in \<open>colors\<close>. Its labels are the distinct labels of \<open>colors\<close>, each
  with the share \<^verbatim>\<open>count / n\<close>, a float.
\<close>

theorem distribution_descending_stable:
  assumes "map_of index genotype = Some colors"
  shows "\<exists>n shares. report index genotype = Inr (n, shares) \<and>
     sorted_wrt (\<lambda>a b. count_list colors (fst b) \<le> count_list colors (fst a)) shares \<and>
     (\<forall>c. filter (\<lambda>l. count_list colors l = c) (map fst shares) =
          filter (\<lambda>l. count_list colors l = c) (first_seen colors)) \<and>
     distinct (map fst shares) \<and> set (map fst shares) = set colors \<and>
     map snd shares = map (\<lambda>l. round_double (int (count_list colors l)) n) (map fst shares)"
proof -
  let ?n = "int (length colors)"
  let ?h = "\<lambda>item :: string \<times> int. (fst item, round_double (snd item) ?n)"
  let ?shares = "map ?h (color_counts colors)"
  have run: "report index genotype = Inr (?n, ?shares)" by (rule report_found [OF assms])
  have labels: "map fst ?shares = map fst (color_counts colors)" by (simp add: comp_def)
  have s1: "sorted_wrt (\<lambda>a b. count_list colors (fst b) \<le> count_list colors (fst a)) ?shares"
    using color_counts_descending [of colors] by (simp add: sorted_wrt_map)
  have s2: "\<forall>c. filter (\<lambda>l. count_list colors l = c) (map fst ?shares) =
          filter (\<lambda>l. count_list colors l = c) (first_seen colors)"
    unfolding labels by (simp add: color_counts_stable)
  have s3: "distinct (map fst ?shares) \<and> set (map fst ?shares) = set colors"
    unfolding labels by (rule color_counts_labels)
  have s4: "map snd ?shares =
      map (\<lambda>l. round_double (int (count_list colors l)) ?n) (map fst ?shares)"
    by (simp add: comp_def color_counts_entry)
  from run s1 s2 s3 s4 show ?thesis by blast
qed

theorem distribution_descending_stable_witness:
  "map_of [((''CC'', ''AG'', ''GG''), [''brown'', ''blue'', ''green'', ''blue'', ''green''])]
      (''CC'', ''AG'', ''GG'') = Some [''brown'', ''blue'', ''green'', ''blue'', ''green'']
   \<and> report [((''CC'', ''AG'', ''GG''), [''brown'', ''blue'', ''green'', ''blue'', ''green''])]
      (''CC'', ''AG'', ''GG'')
     = Inr (5, [(''blue'', 3602879701896397 / 9007199254740992),
            (''green'', 3602879701896397 / 9007199254740992),
            (''brown'', 3602879701896397 / 18014398509481984)])
   \<and> first_seen [''brown'', ''blue'', ''green'', ''blue'', ''green''] = [''brown'', ''blue'', ''green'']
   \<and> filter (\<lambda>l. count_list [''brown'', ''blue'', ''green'', ''blue'', ''green''] l = 2)
        (map fst [(''blue'', 3602879701896397 / 9007199254740992 :: rat),
            (''green'', 3602879701896397 / 9007199254740992),
            (''brown'', 3602879701896397 / 18014398509481984)])
       = filter (\<lambda>l. count_list [''brown'', ''blue'', ''green'', ''blue'', ''green''] l = 2)
           (first_seen [''brown'', ''blue'', ''green'', ''blue'', ''green''])"
proof -
  let ?colors = "[''brown'', ''blue'', ''green'', ''blue'', ''green'']"
  let ?index = "[((''CC'', ''AG'', ''GG''), ?colors)]"
  let ?g = "(''CC'', ''AG'', ''GG'')"
  let ?shares = "[(''blue'', 3602879701896397 / 9007199254740992 :: rat),
            (''green'', 3602879701896397 / 9007199254740992),
            (''brown'', 3602879701896397 / 18014398509481984)]"
  have h: "map_of ?index ?g = Some ?colors" by simp
  have r: "report ?index ?g = Inr (5, ?shares)" by code_simp
  have f: "first_seen ?colors = [''brown'', ''blue'', ''green'']" by code_simp
  from distribution_descending_stable [OF h] obtain n shares where
    run: "report ?index ?g = Inr (n, shares)"
    and stable: "\<forall>c. filter (\<lambda>l. count_list ?colors l = c) (map fst shares) =
          filter (\<lambda>l. count_list ?colors l = c) (first_seen ?colors)"
    by blast
  from run r have "shares = ?shares" by simp
  with stable have "filter (\<lambda>l. count_list ?colors l = 2) (map fst ?shares) =
          filter (\<lambda>l. count_list ?colors l = 2) (first_seen ?colors)"
    by blast
  with h r f show ?thesis by (intro conjI)
qed

section \<open>The index builder\<close>

lemma getitem_Some: "map_of d k = Some v \<Longrightarrow> getitem d k = Inr v"
  by (simp add: getitem_def)

lemma contains_iff: "contains d k \<longleftrightarrow> (\<exists>v. map_of d k = Some v)"
proof -
  have "contains d k \<longleftrightarrow> k \<in> dom (map_of d)"
    by (simp add: contains_def dom_map_of_conv_image_fst)
  then show ?thesis by auto
qed

lemma foldl_dict_keys:
  "fst ` set (foldl (\<lambda>d item. if cond item then AList.update (key item) (val item) d else d)
      d0 items) = fst ` set d0 \<union> key ` {i \<in> set items. cond i}"
proof (induction items arbitrary: d0)
  case Nil
  show ?case by simp
next
  case (Cons i items)
  show ?case
  proof (cases "cond i")
    case True
    then show ?thesis by (simp add: Cons.IH dom_update) blast
  next
    case False
    then show ?thesis by (simp add: Cons.IH) blast
  qed
qed

lemma foldl_dict_distinct:
  "distinct (map fst d0) \<Longrightarrow>
   distinct (map fst (foldl (\<lambda>d item. if cond item then AList.update (key item) (val item) d else d)
      d0 items))"
proof (induction items arbitrary: d0)
  case Nil
  then show ?case by simp
next
  case (Cons i items)
  then show ?case by (simp add: distinct_update)
qed

lemma foldl_dict_map_of:
  "map_of (foldl (\<lambda>d item. if cond item then AList.update (key item) (val item) d else d)
      d0 items) k = Some v \<Longrightarrow>
   map_of d0 k = Some v \<or> (\<exists>i \<in> set items. cond i \<and> key i = k \<and> val i = v)"
proof (induction items arbitrary: d0)
  case Nil
  then show ?case by simp
next
  case (Cons i items)
  from Cons.IH [OF Cons.prems [simplified]] show ?case
    by (auto simp: update_conv' split: if_splits)
qed

lemma dict_comprehension_keys:
  "fst ` set (dict_comprehension key val cond items) = key ` {i \<in> set items. cond i}"
  by (simp add: dict_comprehension_def foldl_dict_keys)

lemma dict_comprehension_distinct: "distinct (map fst (dict_comprehension key val cond items))"
  by (simp add: dict_comprehension_def foldl_dict_distinct)

lemma dict_comprehension_map_of:
  "map_of (dict_comprehension key val cond items) k = Some v \<Longrightarrow>
   \<exists>i \<in> set items. cond i \<and> key i = k \<and> val i = v"
  unfolding dict_comprehension_def by (drule foldl_dict_map_of) simp

lemma index_step_ok:
  assumes "map_of ra u = Some a" "map_of rb u = Some b" "map_of rc u = Some c"
    "map_of eye u = Some col"
  shows "index_step eye ra rb rc idx u =
     Inr (AList.update (a, b, c)
            ((case map_of idx (a, b, c) of None \<Rightarrow> [] | Some cs \<Rightarrow> cs) @ [col]) idx)"
  using assms
  by (simp add: index_step_def bind_err_def getitem_Some Let_def split: option.splits)

lemma index_loop_spec:
  assumes "\<forall>u \<in> set us. map_of ra u = Some (fa u) \<and> map_of rb u = Some (fb u) \<and>
             map_of rc u = Some (fc u) \<and> map_of eye u = Some (col u)"
  shows "\<exists>idx'. index_loop eye ra rb rc idx us = Inr idx' \<and>
     (distinct (map fst idx) \<longrightarrow> distinct (map fst idx')) \<and>
     (\<forall>g. map_of idx' g =
        (if filter (\<lambda>u. (fa u, fb u, fc u) = g) us = [] then map_of idx g
         else Some ((case map_of idx g of None \<Rightarrow> [] | Some cs \<Rightarrow> cs) @
                    map col (filter (\<lambda>u. (fa u, fb u, fc u) = g) us))))"
  using assms
proof (induction us arbitrary: idx)
  case Nil
  show ?case by simp
next
  case (Cons u us)
  let ?g0 = "(fa u, fb u, fc u)"
  let ?idx1 = "AList.update ?g0
     ((case map_of idx ?g0 of None \<Rightarrow> [] | Some cs \<Rightarrow> cs) @ [col u]) idx"
  from Cons.prems have step: "index_step eye ra rb rc idx u = Inr ?idx1"
    by (simp add: index_step_ok)
  from Cons.prems have rest: "\<forall>u \<in> set us. map_of ra u = Some (fa u) \<and>
      map_of rb u = Some (fb u) \<and> map_of rc u = Some (fc u) \<and> map_of eye u = Some (col u)"
    by simp
  from Cons.IH [OF rest, of ?idx1] obtain idx' where
    run: "index_loop eye ra rb rc ?idx1 us = Inr idx'"
    and dist: "distinct (map fst ?idx1) \<longrightarrow> distinct (map fst idx')"
    and vals: "\<forall>g. map_of idx' g =
        (if filter (\<lambda>u. (fa u, fb u, fc u) = g) us = [] then map_of ?idx1 g
         else Some ((case map_of ?idx1 g of None \<Rightarrow> [] | Some cs \<Rightarrow> cs) @
                    map col (filter (\<lambda>u. (fa u, fb u, fc u) = g) us)))"
    by blast
  have a: "index_loop eye ra rb rc idx (u # us) = Inr idx'"
    by (simp add: step run bind_err_def)
  have b: "distinct (map fst idx) \<longrightarrow> distinct (map fst idx')"
    using dist by (simp add: distinct_update)
  have c: "map_of idx' g =
        (if filter (\<lambda>v. (fa v, fb v, fc v) = g) (u # us) = [] then map_of idx g
         else Some ((case map_of idx g of None \<Rightarrow> [] | Some cs \<Rightarrow> cs) @
                    map col (filter (\<lambda>v. (fa v, fb v, fc v) = g) (u # us))))" for g
  proof (cases "?g0 = g")
    case True
    then show ?thesis using vals [rule_format, of g]
      by (simp add: update_conv')
  next
    case False
    then show ?thesis using vals [rule_format, of g]
      by (simp add: update_conv')
  qed
  from a b c show ?case by blast
qed

lemma eyecolor_by_uid_map_of:
  "map_of (eyecolor_by_uid E) u = Some c \<Longrightarrow> reported E u c"
  unfolding eyecolor_by_uid_def reported_def by (drule dict_comprehension_map_of) auto

lemma rs_by_uid_map_of: "map_of (rs_by_uid rs) u = Some x \<Longrightarrow> observed rs u x"
  unfolding rs_by_uid_def observed_def by (drule dict_comprehension_map_of) auto

lemma joint_uids_distinct:
  "distinct (joint_uids (eyecolor_by_uid E) ra rb rc)"
  by (simp add: joint_uids_def eyecolor_by_uid_def dict_comprehension_distinct)

lemma joint_uids_lookup:
  assumes "u \<in> set (joint_uids eye ra rb rc)"
  shows "map_of ra u = Some (the (map_of ra u)) \<and> map_of rb u = Some (the (map_of rb u)) \<and>
         map_of rc u = Some (the (map_of rc u)) \<and> map_of eye u = Some (the (map_of eye u))"
proof -
  from assms have "contains ra u" "contains rb u" "contains rc u" "contains eye u"
    by (auto simp: joint_uids_def contains_def)
  then show ?thesis by (auto simp: contains_iff)
qed

lemma index_loop_empty:
  assumes "\<forall>u \<in> set us. map_of ra u = Some (fa u) \<and> map_of rb u = Some (fb u) \<and>
             map_of rc u = Some (fc u) \<and> map_of eye u = Some (col u)"
  shows "\<exists>idx'. index_loop eye ra rb rc [] us = Inr idx' \<and> distinct (map fst idx') \<and>
     (\<forall>g. map_of idx' g =
        (if filter (\<lambda>u. (fa u, fb u, fc u) = g) us = [] then None
         else Some (map col (filter (\<lambda>u. (fa u, fb u, fc u) = g) us))))"
  using index_loop_spec [OF assms, of "[]"] by (simp cong: if_cong)

text \<open>The index: the bucket of a tuple lists the colours of the joint subjects with that
  tuple, in the order of \<^verbatim>\<open>joint_uids\<close>; a tuple of no joint subject has no entry.\<close>

lemma genotypes_to_color_spec:
  "\<exists>idx. genotypes_to_color E A B C = Inr idx \<and> distinct (map fst idx) \<and>
     (\<forall>g. map_of idx g =
        (if filter (\<lambda>u. (the (map_of (rs_by_uid A) u), the (map_of (rs_by_uid B) u),
                         the (map_of (rs_by_uid C) u)) = g)
              (joint_uids (eyecolor_by_uid E) (rs_by_uid A) (rs_by_uid B) (rs_by_uid C)) = []
         then None
         else Some (map (\<lambda>u. the (map_of (eyecolor_by_uid E) u))
                 (filter (\<lambda>u. (the (map_of (rs_by_uid A) u), the (map_of (rs_by_uid B) u),
                                  the (map_of (rs_by_uid C) u)) = g)
                    (joint_uids (eyecolor_by_uid E) (rs_by_uid A) (rs_by_uid B)
                       (rs_by_uid C))))))"
  unfolding genotypes_to_color_def Let_def
  by (rule index_loop_empty) (intro ballI, erule joint_uids_lookup)

text \<open>A subject that is missing from one of the four datasets is not in \<^verbatim>\<open>joint_uids\<close>:
  the index is the one built from the datasets without its records.\<close>

lemma foldl_dict_delete:
  "foldl (\<lambda>d item. if cond item then AList.update (key item) (val item) d else d)
      (AList.delete u d0) (filter (\<lambda>i. key i \<noteq> u) items) =
   AList.delete u
     (foldl (\<lambda>d item. if cond item then AList.update (key item) (val item) d else d) d0 items)"
proof (induction items arbitrary: d0)
  case Nil
  show ?case by simp
next
  case (Cons i items)
  show ?case
    by (simp add: Cons.IH [symmetric] delete_update_same delete_update)
qed

lemma dict_comprehension_delete:
  "dict_comprehension key val cond (filter (\<lambda>i. key i \<noteq> u) items) =
   AList.delete u (dict_comprehension key val cond items)"
  using foldl_dict_delete [of cond key val u "[]" items]
  by (simp add: dict_comprehension_def)

lemma eyecolor_by_uid_without:
  "eyecolor_by_uid (without_color u E) = AList.delete u (eyecolor_by_uid E)"
  by (simp add: eyecolor_by_uid_def without_color_def dict_comprehension_delete)

lemma rs_by_uid_without:
  "rs_by_uid (without_genotype u rs) = AList.delete u (rs_by_uid rs)"
  using dict_comprehension_delete [of "\<lambda>item. ident (user item)" _ _ u rs]
  by (simp add: rs_by_uid_def without_genotype_def)

lemma contains_delete: "contains (AList.delete u d) v \<longleftrightarrow> v \<noteq> u \<and> contains d v"
  by (auto simp: contains_def delete_keys)

lemma joint_uids_delete:
  "joint_uids (AList.delete u eye) (AList.delete u ra) (AList.delete u rb) (AList.delete u rc) =
   removeAll u (joint_uids eye ra rb rc)"
proof -
  have "filter P (removeAll u ks) = removeAll u (filter Q ks)"
    if "\<And>v. v \<noteq> u \<Longrightarrow> P v = Q v" for P Q and ks :: "'a list"
    using that by (induction ks) auto
  then show ?thesis
    by (simp add: joint_uids_def delete_keys contains_delete)
qed

lemma joint_uids_member:
  "u \<in> set (joint_uids (eyecolor_by_uid E) (rs_by_uid A) (rs_by_uid B) (rs_by_uid C)) \<longleftrightarrow>
   has_color E u \<and> has_genotype A u \<and> has_genotype B u \<and> has_genotype C u"
proof -
  have e: "contains (eyecolor_by_uid E) u \<longleftrightarrow> has_color E u"
    by (auto simp: contains_def eyecolor_by_uid_def dict_comprehension_keys has_color_def)
  have g: "contains (rs_by_uid rs) u \<longleftrightarrow> has_genotype rs u" for rs
    by (auto simp: contains_def rs_by_uid_def dict_comprehension_keys has_genotype_def)
  have "u \<in> set (joint_uids (eyecolor_by_uid E) (rs_by_uid A) (rs_by_uid B) (rs_by_uid C)) \<longleftrightarrow>
      contains (eyecolor_by_uid E) u \<and> contains (rs_by_uid A) u \<and> contains (rs_by_uid B) u \<and>
      contains (rs_by_uid C) u"
    by (auto simp: joint_uids_def contains_def)
  then show ?thesis by (simp only: e g)
qed

lemma index_step_cong:
  assumes "map_of eye' v = map_of eye v" "map_of ra' v = map_of ra v"
    "map_of rb' v = map_of rb v" "map_of rc' v = map_of rc v"
  shows "index_step eye' ra' rb' rc' idx v = index_step eye ra rb rc idx v"
  unfolding index_step_def getitem_def assms by (rule refl)

lemma index_loop_cong:
  assumes "\<forall>v \<in> set us. map_of eye' v = map_of eye v \<and> map_of ra' v = map_of ra v \<and>
             map_of rb' v = map_of rb v \<and> map_of rc' v = map_of rc v"
  shows "index_loop eye' ra' rb' rc' idx us = index_loop eye ra rb rc idx us"
  using assms
proof (induction us arbitrary: idx)
  case Nil
  show ?case by simp
next
  case (Cons v us)
  from Cons.prems have rest: "\<forall>v \<in> set us. map_of eye' v = map_of eye v \<and>
      map_of ra' v = map_of ra v \<and> map_of rb' v = map_of rb v \<and> map_of rc' v = map_of rc v"
    by simp
  have tl: "index_loop eye' ra' rb' rc' idx1 us = index_loop eye ra rb rc idx1 us" for idx1
    by (rule Cons.IH [OF rest])
  from Cons.prems have "map_of eye' v = map_of eye v" "map_of ra' v = map_of ra v"
    "map_of rb' v = map_of rb v" "map_of rc' v = map_of rc v"
    by simp_all
  then have st: "index_step eye' ra' rb' rc' idx v = index_step eye ra rb rc idx v"
    by (rule index_step_cong)
  show ?case by (simp only: index_loop.simps st tl)
qed

lemma genotypes_to_color_without:
  assumes "\<not> (has_color E u \<and> has_genotype A u \<and> has_genotype B u \<and> has_genotype C u)"
  shows "genotypes_to_color (without_color u E) (without_genotype u A) (without_genotype u B)
           (without_genotype u C) = genotypes_to_color E A B C"
proof -
  let ?eye = "eyecolor_by_uid E"
  let ?ra = "rs_by_uid A" and ?rb = "rs_by_uid B" and ?rc = "rs_by_uid C"
  let ?joint = "joint_uids ?eye ?ra ?rb ?rc"
  from assms have notin: "u \<notin> set ?joint" by (simp only: joint_uids_member not_False_eq_True)
  then have j: "removeAll u ?joint = ?joint" by simp
  have "\<forall>v \<in> set ?joint. map_of (AList.delete u ?eye) v = map_of ?eye v \<and>
      map_of (AList.delete u ?ra) v = map_of ?ra v \<and>
      map_of (AList.delete u ?rb) v = map_of ?rb v \<and>
      map_of (AList.delete u ?rc) v = map_of ?rc v"
    using notin by (auto simp: delete_conv')
  then have "index_loop (AList.delete u ?eye) (AList.delete u ?ra) (AList.delete u ?rb)
      (AList.delete u ?rc) [] ?joint = index_loop ?eye ?ra ?rb ?rc [] ?joint"
    by (rule index_loop_cong)
  then show ?thesis
    by (simp only: genotypes_to_color_def Let_def eyecolor_by_uid_without rs_by_uid_without
        joint_uids_delete j)
qed

text \<open>
  C5. For every choice of the four datasets the index builder returns an index. Every bucket
  of it is the list of the labels of distinct subjects, each of which has a record in the
  eye-colour dataset with that label (lower-cased) and, in each of the three genotype
  datasets, a record with a non-empty observation list whose first observation is the
  bucket's genotype at that position. A subject without a record in the eye-colour dataset,
  or without a record with a non-empty observation list in one of the genotype datasets,
  contributes nothing: the index built without its records is the same.
\<close>

theorem index_labels_attributed:
  "\<exists>idx. genotypes_to_color E A B C = Inr idx \<and>
     (\<forall>g cs. map_of idx g = Some cs \<longrightarrow>
        (\<exists>us. distinct us \<and> list_all2 (attributed E A B C g) us cs)) \<and>
     (\<forall>u. \<not> (has_color E u \<and> has_genotype A u \<and> has_genotype B u \<and> has_genotype C u) \<longrightarrow>
        genotypes_to_color (without_color u E) (without_genotype u A) (without_genotype u B)
          (without_genotype u C) = Inr idx)"
proof -
  let ?eye = "eyecolor_by_uid E"
  let ?ra = "rs_by_uid A" and ?rb = "rs_by_uid B" and ?rc = "rs_by_uid C"
  let ?joint = "joint_uids ?eye ?ra ?rb ?rc"
  let ?tuple_of = "\<lambda>u. (the (map_of ?ra u), the (map_of ?rb u), the (map_of ?rc u))"
  from genotypes_to_color_spec [of E A B C] obtain idx where
    run: "genotypes_to_color E A B C = Inr idx"
    and vals: "\<forall>g. map_of idx g =
        (if filter (\<lambda>u. ?tuple_of u = g) ?joint = [] then None
         else Some (map (\<lambda>u. the (map_of ?eye u)) (filter (\<lambda>u. ?tuple_of u = g) ?joint)))"
    by blast
  have a: "\<exists>us. distinct us \<and> list_all2 (attributed E A B C g) us cs"
    if found: "map_of idx g = Some cs" for g cs
  proof -
    let ?us = "filter (\<lambda>u. ?tuple_of u = g) ?joint"
    from found vals have cs: "cs = map (\<lambda>u. the (map_of ?eye u)) ?us"
      by (simp split: if_splits)
    have d: "distinct ?us" by (simp add: joint_uids_distinct)
    have "attributed E A B C g u (the (map_of ?eye u))" if "u \<in> set ?us" for u
    proof -
      from that have j: "u \<in> set ?joint" and g: "?tuple_of u = g" by simp_all
      from joint_uids_lookup [OF j] g show ?thesis
        by (auto simp: attributed_def intro: eyecolor_by_uid_map_of rs_by_uid_map_of)
    qed
    then have "list_all2 (attributed E A B C g) ?us cs"
      by (simp add: cs list_all2_map2 list_all2_same)
    with d show ?thesis by blast
  qed
  have b: "genotypes_to_color (without_color u E) (without_genotype u A) (without_genotype u B)
          (without_genotype u C) = Inr idx"
    if "\<not> (has_color E u \<and> has_genotype A u \<and> has_genotype B u \<and> has_genotype C u)" for u
    using genotypes_to_color_without [OF that] run by simp
  from run a b show ?thesis by blast
qed

theorem index_labels_attributed_witness:
  "genotypes_to_color
     \<lparr>users = [\<lparr>user_id = 42 :: nat, variation = ''Brown''\<rparr>, \<lparr>user_id = 7, variation = ''Blue''\<rparr>]\<rparr>
     [\<lparr>user = \<lparr>ident = 42, genotypes = [\<lparr>local_genotype = ''CC''\<rparr>, \<lparr>local_genotype = ''TT''\<rparr>]\<rparr>\<rparr>,
      \<lparr>user = \<lparr>ident = 7, genotypes = [\<lparr>local_genotype = ''CC''\<rparr>]\<rparr>\<rparr>]
     [\<lparr>user = \<lparr>ident = 42, genotypes = [\<lparr>local_genotype = ''AG''\<rparr>]\<rparr>\<rparr>,
      \<lparr>user = \<lparr>ident = 7, genotypes = [\<lparr>local_genotype = ''AG''\<rparr>]\<rparr>\<rparr>]
     [\<lparr>user = \<lparr>ident = 42, genotypes = [\<lparr>local_genotype = ''GG''\<rparr>]\<rparr>\<rparr>,
      \<lparr>user = \<lparr>ident = 7, genotypes = []\<rparr>\<rparr>]
     = Inr [((''CC'', ''AG'', ''GG''), [''brown''])]
   \<and> (\<exists>us. distinct us \<and>
        list_all2 (attributed
          \<lparr>users = [\<lparr>user_id = 42 :: nat, variation = ''Brown''\<rparr>, \<lparr>user_id = 7, variation = ''Blue''\<rparr>]\<rparr>
          [\<lparr>user = \<lparr>ident = 42, genotypes = [\<lparr>local_genotype = ''CC''\<rparr>, \<lparr>local_genotype = ''TT''\<rparr>]\<rparr>\<rparr>,
           \<lparr>user = \<lparr>ident = 7, genotypes = [\<lparr>local_genotype = ''CC''\<rparr>]\<rparr>\<rparr>]
          [\<lparr>user = \<lparr>ident = 42, genotypes = [\<lparr>local_genotype = ''AG''\<rparr>]\<rparr>\<rparr>,
           \<lparr>user = \<lparr>ident = 7, genotypes = [\<lparr>local_genotype = ''AG''\<rparr>]\<rparr>\<rparr>]
          [\<lparr>user = \<lparr>ident = 42, genotypes = [\<lparr>local_genotype = ''GG''\<rparr>]\<rparr>\<rparr>,
           \<lparr>user = \<lparr>ident = 7, genotypes = []\<rparr>\<rparr>]
          (''CC'', ''AG'', ''GG'')) us [''brown''])
   \<and> \<not> has_genotype [\<lparr>user = \<lparr>ident = 42 :: nat, genotypes = [\<lparr>local_genotype = ''GG''\<rparr>]\<rparr>\<rparr>,
                      \<lparr>user = \<lparr>ident = 7, genotypes = []\<rparr>\<rparr>] 7
   \<and> genotypes_to_color
     (without_color 7 \<lparr>users = [\<lparr>user_id = 42 :: nat, variation = ''Brown''\<rparr>, \<lparr>user_id = 7, variation = ''Blue''\<rparr>]\<rparr>)
     (without_genotype 7
       [\<lparr>user = \<lparr>ident = 42, genotypes = [\<lparr>local_genotype = ''CC''\<rparr>, \<lparr>local_genotype = ''TT''\<rparr>]\<rparr>\<rparr>,
        \<lparr>user = \<lparr>ident = 7, genotypes = [\<lparr>local_genotype = ''CC''\<rparr>]\<rparr>\<rparr>])
     (without_genotype 7
       [\<lparr>user = \<lparr>ident = 42, genotypes = [\<lparr>local_genotype = ''AG''\<rparr>]\<rparr>\<rparr>,
        \<lparr>user = \<lparr>ident = 7, genotypes = [\<lparr>local_genotype = ''AG''\<rparr>]\<rparr>\<rparr>])
     (without_genotype 7
       [\<lparr>user = \<lparr>ident = 42, genotypes = [\<lparr>local_genotype = ''GG''\<rparr>]\<rparr>\<rparr>,
        \<lparr>user = \<lparr>ident = 7, genotypes = []\<rparr>\<rparr>])
     = Inr [((''CC'', ''AG'', ''GG''), [''brown''])]"
proof -
  let ?E = "\<lparr>users = [\<lparr>user_id = 42 :: nat, variation = ''Brown''\<rparr>, \<lparr>user_id = 7, variation = ''Blue''\<rparr>]\<rparr>"
  let ?A = "[\<lparr>user = \<lparr>ident = 42 :: nat, genotypes = [\<lparr>local_genotype = ''CC''\<rparr>, \<lparr>local_genotype = ''TT''\<rparr>]\<rparr>\<rparr>,
      \<lparr>user = \<lparr>ident = 7, genotypes = [\<lparr>local_genotype = ''CC''\<rparr>]\<rparr>\<rparr>]"
  let ?B = "[\<lparr>user = \<lparr>ident = 42 :: nat, genotypes = [\<lparr>local_genotype = ''AG''\<rparr>]\<rparr>\<rparr>,
      \<lparr>user = \<lparr>ident = 7, genotypes = [\<lparr>local_genotype = ''AG''\<rparr>]\<rparr>\<rparr>]"
  let ?C = "[\<lparr>user = \<lparr>ident = 42 :: nat, genotypes = [\<lparr>local_genotype = ''GG''\<rparr>]\<rparr>\<rparr>,
      \<lparr>user = \<lparr>ident = 7, genotypes = []\<rparr>\<rparr>]"
  let ?g = "(''CC'', ''AG'', ''GG'')"
  let ?I = "[(?g, [''brown''])]"
  have r: "genotypes_to_color ?E ?A ?B ?C = Inr ?I" by code_simp
  have m: "\<not> has_genotype ?C 7" by (simp add: has_genotype_def)
  from index_labels_attributed [of ?E ?A ?B ?C] obtain idx where
    run: "genotypes_to_color ?E ?A ?B ?C = Inr idx"
    and attr: "\<forall>g cs. map_of idx g = Some cs \<longrightarrow>
        (\<exists>us. distinct us \<and> list_all2 (attributed ?E ?A ?B ?C g) us cs)"
    and none: "\<forall>u. \<not> (has_color ?E u \<and> has_genotype ?A u \<and> has_genotype ?B u \<and>
          has_genotype ?C u) \<longrightarrow>
        genotypes_to_color (without_color u ?E) (without_genotype u ?A) (without_genotype u ?B)
          (without_genotype u ?C) = Inr idx"
    by blast
  from run r have idx: "idx = ?I" by simp
  have "map_of ?I ?g = Some [''brown'']" by simp
  with attr idx have a: "\<exists>us. distinct us \<and> list_all2 (attributed ?E ?A ?B ?C ?g) us [''brown'']"
    by blast
  from none m idx have b: "genotypes_to_color (without_color 7 ?E) (without_genotype 7 ?A)
      (without_genotype 7 ?B) (without_genotype 7 ?C) = Inr ?I"
    by blast
  from r a m b show ?thesis by (intro conjI)
qed

text \<open>
  C10. For every choice of the four datasets the index builder returns an index in which every
  entry holds a non-empty list of labels; for every tuple that is a key of it the reporter
  returns (no \<^verbatim>\<open>ZeroDivisionError\<close>) a strictly positive match count and a non-empty
  distribution.
\<close>

theorem index_entries_nonempty:
  "\<exists>idx. genotypes_to_color E A B C = Inr idx \<and>
     (\<forall>(g, cs) \<in> set idx. cs \<noteq> []) \<and>
     (\<forall>g. contains idx g \<longrightarrow>
        (\<exists>n shares. report idx g = Inr (n, shares) \<and> 0 < n \<and> shares \<noteq> []))"
proof -
  let ?eye = "eyecolor_by_uid E"
  let ?ra = "rs_by_uid A" and ?rb = "rs_by_uid B" and ?rc = "rs_by_uid C"
  let ?joint = "joint_uids ?eye ?ra ?rb ?rc"
  let ?tuple_of = "\<lambda>u. (the (map_of ?ra u), the (map_of ?rb u), the (map_of ?rc u))"
  from genotypes_to_color_spec [of E A B C] obtain idx where
    run: "genotypes_to_color E A B C = Inr idx"
    and dist: "distinct (map fst idx)"
    and vals: "\<forall>g. map_of idx g =
        (if filter (\<lambda>u. ?tuple_of u = g) ?joint = [] then None
         else Some (map (\<lambda>u. the (map_of ?eye u)) (filter (\<lambda>u. ?tuple_of u = g) ?joint)))"
    by blast
  have ne: "cs \<noteq> []" if "map_of idx g = Some cs" for g cs
    using that vals by (auto split: if_splits)
  have a0: "cs \<noteq> []" if "(g, cs) \<in> set idx" for g cs
  proof -
    from that dist have "map_of idx g = Some cs" by simp
    then show ?thesis by (rule ne)
  qed
  have a: "\<forall>(g, cs) \<in> set idx. cs \<noteq> []"
    using a0 by blast
  have b: "\<exists>n shares. report idx g = Inr (n, shares) \<and> 0 < n \<and> shares \<noteq> []"
    if "contains idx g" for g
  proof -
    from that obtain cs where found: "map_of idx g = Some cs" by (auto simp: contains_iff)
    from ne [OF found] have "0 < int (length cs)" by simp
    moreover from ne [OF found] have "color_counts cs \<noteq> []" by (simp add: color_counts_Nil_iff)
    ultimately show ?thesis unfolding report_found [OF found] by simp
  qed
  from run a b show ?thesis by blast
qed

theorem index_entries_nonempty_witness:
  "genotypes_to_color
     \<lparr>users = [\<lparr>user_id = 42 :: nat, variation = ''Brown''\<rparr>, \<lparr>user_id = 9, variation = ''GREEN''\<rparr>]\<rparr>
     [\<lparr>user = \<lparr>ident = 9, genotypes = [\<lparr>local_genotype = ''CC''\<rparr>]\<rparr>\<rparr>,
      \<lparr>user = \<lparr>ident = 42, genotypes = [\<lparr>local_genotype = ''CC''\<rparr>]\<rparr>\<rparr>]
     [\<lparr>user = \<lparr>ident = 42, genotypes = [\<lparr>local_genotype = ''AG''\<rparr>]\<rparr>\<rparr>,
      \<lparr>user = \<lparr>ident = 9, genotypes = [\<lparr>local_genotype = ''AG''\<rparr>]\<rparr>\<rparr>]
     [\<lparr>user = \<lparr>ident = 42, genotypes = [\<lparr>local_genotype = ''GG''\<rparr>]\<rparr>\<rparr>,
      \<lparr>user = \<lparr>ident = 9, genotypes = [\<lparr>local_genotype = ''GG''\<rparr>]\<rparr>\<rparr>]
     = Inr [((''CC'', ''AG'', ''GG''), [''brown'', ''green''])]
   \<and> contains [((''CC'', ''AG'', ''GG''), [''brown'', ''green''])] (''CC'', ''AG'', ''GG'')
   \<and> (\<exists>n shares. report [((''CC'', ''AG'', ''GG''), [''brown'', ''green''])] (''CC'', ''AG'', ''GG'')
          = Inr (n, shares) \<and> 0 < n \<and> shares \<noteq> [])"
proof -
  let ?E = "\<lparr>users = [\<lparr>user_id = 42 :: nat, variation = ''Brown''\<rparr>, \<lparr>user_id = 9, variation = ''GREEN''\<rparr>]\<rparr>"
  let ?A = "[\<lparr>user = \<lparr>ident = 9 :: nat, genotypes = [\<lparr>local_genotype = ''CC''\<rparr>]\<rparr>\<rparr>,
      \<lparr>user = \<lparr>ident = 42, genotypes = [\<lparr>local_genotype = ''CC''\<rparr>]\<rparr>\<rparr>]"
  let ?B = "[\<lparr>user = \<lparr>ident = 42 :: nat, genotypes = [\<lparr>local_genotype = ''AG''\<rparr>]\<rparr>\<rparr>,
      \<lparr>user = \<lparr>ident = 9, genotypes = [\<lparr>local_genotype = ''AG''\<rparr>]\<rparr>\<rparr>]"
  let ?C = "[\<lparr>user = \<lparr>ident = 42 :: nat, genotypes = [\<lparr>local_genotype = ''GG''\<rparr>]\<rparr>\<rparr>,
      \<lparr>user = \<lparr>ident = 9, genotypes = [\<lparr>local_genotype = ''GG''\<rparr>]\<rparr>\<rparr>]"
  let ?g = "(''CC'', ''AG'', ''GG'')"
  let ?I = "[(?g, [''brown'', ''green''])]"
  have r: "genotypes_to_color ?E ?A ?B ?C = Inr ?I" by code_simp
  have c: "contains ?I ?g" by (simp add: contains_def)
  from index_entries_nonempty [of ?E ?A ?B ?C] obtain idx where
    run: "genotypes_to_color ?E ?A ?B ?C = Inr idx"
    and rep: "\<forall>g. contains idx g \<longrightarrow>
        (\<exists>n shares. report idx g = Inr (n, shares) \<and> 0 < n \<and> shares \<noteq> [])"
    by blast
  from run r have idx: "idx = ?I" by simp
  from rep c idx have "\<exists>n shares. report ?I ?g = Inr (n, shares) \<and> 0 < n \<and> shares \<noteq> []"
    by blast
  with r c show ?thesis by (intro conjI)
qed

end
